theory Spec2Isabelle
  imports Main "HOL-Library.Multiset"
begin

section \<open>Data model\<close>

text \<open>
  The two source fragments, \<^verbatim>\<open>thing.cpp\<close> (\<^verbatim>\<open>RBinsert1\<close>) and \<^verbatim>\<open>thing.c\<close>
  (\<^verbatim>\<open>rb_insert\<close>), work on heap-allocated nodes with \<^verbatim>\<open>parent\<close>, \<^verbatim>\<open>left\<close> and
  \<^verbatim>\<open>right\<close> pointers. The node store is a list of nodes; a pointer is an index into
  it or \<open>None\<close> (\<^verbatim>\<open>NULL\<close>, \<^verbatim>\<open>NIL\<close>). The struct declarations are not part of the
  sources; the fields are the ones the code uses (\<^verbatim>\<open>color\<close>, \<^verbatim>\<open>parent\<close>, \<^verbatim>\<open>left\<close>,
  \<^verbatim>\<open>right\<close>, \<^verbatim>\<open>child[dir]\<close>, \<^verbatim>\<open>T->root\<close>) plus the key of section 3 of the
  specification.
\<close>

datatype color = RED | BLACK

datatype dir = LEFT | RIGHT

type_synonym ref = "nat option"

record RBnode =
  key :: int
  color :: color
  parent :: ref
  left :: ref
  right :: ref

record RBtree =
  root :: ref
  nodes :: "RBnode list"

datatype error = NullDeref | BadPointer | AssertFail

text \<open>\<^verbatim>\<open>1-dir\<close>: the other side.\<close>

fun other :: "dir \<Rightarrow> dir" where
  "other LEFT = RIGHT"
| "other RIGHT = LEFT"

text \<open>\<^verbatim>\<open>n.child[d]\<close>, with \<^verbatim>\<open>left = child[LEFT]\<close> and \<^verbatim>\<open>right = child[RIGHT]\<close>.\<close>

fun child :: "RBnode \<Rightarrow> dir \<Rightarrow> ref" where
  "child n LEFT = left n"
| "child n RIGHT = right n"

fun set_child :: "dir \<Rightarrow> ref \<Rightarrow> RBnode \<Rightarrow> RBnode" where
  "set_child LEFT c n = n\<lparr>left := c\<rparr>"
| "set_child RIGHT c n = n\<lparr>right := c\<rparr>"

definition bind :: "error + 'a \<Rightarrow> ('a \<Rightarrow> error + 'b) \<Rightarrow> error + 'b" where
  "bind m f = (case m of Inl e \<Rightarrow> Inl e | Inr x \<Rightarrow> f x)"

text \<open>Reading through a pointer: \<^verbatim>\<open>p->...\<close> fails on \<^verbatim>\<open>NULL\<close> and outside the store.\<close>

definition deref :: "RBtree \<Rightarrow> ref \<Rightarrow> error + RBnode" where
  "deref T p =
     (case p of
        None \<Rightarrow> Inl NullDeref
      | Some a \<Rightarrow> if a < length (nodes T) then Inr (nodes T ! a) else Inl BadPointer)"

text \<open>Writing through a pointer: \<^verbatim>\<open>p->field = v\<close>.\<close>

definition store :: "RBtree \<Rightarrow> ref \<Rightarrow> (RBnode \<Rightarrow> RBnode) \<Rightarrow> error + RBtree" where
  "store T p f =
     (case p of
        None \<Rightarrow> Inl NullDeref
      | Some a \<Rightarrow>
          if a < length (nodes T)
          then Inr (T\<lparr>nodes := (nodes T)[a := f (nodes T ! a)]\<rparr>)
          else Inl BadPointer)"

section \<open>Helpers of \<^verbatim>\<open>RBinsert1\<close>\<close>

text \<open>
  Modelled from the spec: \<^verbatim>\<open>GetParent\<close> is called by \<^verbatim>\<open>RBinsert1\<close> but is not in the
  sources. It returns the parent link of a node (section 3: every node has a link to its
  parent, absent for the root).
\<close>

definition GetParent :: "RBtree \<Rightarrow> ref \<Rightarrow> error + ref" where
  "GetParent T p = bind (deref T p) (\<lambda>n. Inr (parent n))"

text \<open>
  Modelled from the spec: \<^verbatim>\<open>childDir\<close> is not in the sources. The source comments it as
  ``the side of parent G on which node P is located''.
\<close>

definition childDir :: "RBtree \<Rightarrow> ref \<Rightarrow> error + dir" where
  "childDir T p =
     bind (deref T p) (\<lambda>n.
     bind (deref T (parent n)) (\<lambda>g.
       Inr (if right g = p then RIGHT else LEFT)))"

text \<open>
  Modelled from the spec: \<^verbatim>\<open>GetUncle\<close> is not in the sources. The uncle is ``the sibling
  of a node's parent (i.e., the other child of the grandparent)'' (glossary).
\<close>

definition GetUncle :: "RBtree \<Rightarrow> ref \<Rightarrow> error + ref" where
  "GetUncle T n =
     bind (GetParent T n) (\<lambda>p.
     bind (GetParent T p) (\<lambda>g.
     bind (childDir T p) (\<lambda>d.
     bind (deref T g) (\<lambda>gn. Inr (child gn (other d))))))"

text \<open>
  Modelled from the spec: \<^verbatim>\<open>RotateDirRoot\<close> is not in the sources. Section 4.1: the
  rotated node must have a non-absent child \<open>C\<close> on the side opposite \<open>d\<close>; \<open>C\<close> takes the
  node's former position (the node's former parent now pointing to \<open>C\<close>), the node becomes
  the \<open>d\<close>-side child of \<open>C\<close>, the former \<open>d\<close>-side subtree of \<open>C\<close> becomes the node's
  opposite-side subtree, and the three parent links are re-pointed. The root-aware variant
  updates the root reference when the rotated node had no parent; the other variant
  (\<^verbatim>\<open>RotateDir\<close>, called without the tree) leaves the root reference alone.
\<close>

definition rotate :: "bool \<Rightarrow> RBtree \<Rightarrow> ref \<Rightarrow> dir \<Rightarrow> error + RBtree" where
  "rotate root_aware T p d =
     bind (deref T p) (\<lambda>pn.
       let g = parent pn; s = child pn (other d) in
       if s = None then Inl AssertFail
       else
         bind (deref T s) (\<lambda>sn.
           let c = child sn d in
           bind (store T p (set_child (other d) c)) (\<lambda>T1.
           bind (if c = None then Inr T1 else store T1 c (\<lambda>n. n\<lparr>parent := p\<rparr>)) (\<lambda>T2.
           bind (store T2 s (set_child d p)) (\<lambda>T3.
           bind (store T3 p (\<lambda>n. n\<lparr>parent := s\<rparr>)) (\<lambda>T4.
           bind (store T4 s (\<lambda>n. n\<lparr>parent := g\<rparr>)) (\<lambda>T5.
             if g = None then Inr (if root_aware then T5\<lparr>root := s\<rparr> else T5)
             else
               bind (deref T5 g) (\<lambda>gn.
                 store T5 g (set_child (if right gn = p then RIGHT else LEFT) s)))))))))"

definition RotateDirRoot :: "RBtree \<Rightarrow> ref \<Rightarrow> dir \<Rightarrow> error + RBtree" where
  "RotateDirRoot T p d = rotate True T p d"

definition RotateDir :: "RBtree \<Rightarrow> ref \<Rightarrow> dir \<Rightarrow> error + RBtree" where
  "RotateDir T p d = rotate False T p d"

section \<open>\<^verbatim>\<open>RBinsert1\<close> (\<^verbatim>\<open>thing.cpp\<close>)\<close>

text \<open>Lines 10 to 18: the new node is initialised and linked.\<close>

definition RBlink :: "RBtree \<Rightarrow> ref \<Rightarrow> ref \<Rightarrow> dir \<Rightarrow> error + RBtree" where
  "RBlink T P N d =
     bind (store T N (\<lambda>n. n\<lparr>color := RED\<rparr>)) (\<lambda>T1.
     bind (store T1 N (\<lambda>n. n\<lparr>left := None\<rparr>)) (\<lambda>T2.
     bind (store T2 N (\<lambda>n. n\<lparr>right := None\<rparr>)) (\<lambda>T3.
     bind (store T3 N (\<lambda>n. n\<lparr>parent := P\<rparr>)) (\<lambda>T4.
       if P = None then Inr (T4\<lparr>root := N\<rparr>)
       else store T4 P (set_child d N)))))"

text \<open>\<^verbatim>\<open>Case_I6\<close>, lines 59 to 61: \<open>P\<close> is the root and red.\<close>

definition Case_I6 :: "RBtree \<Rightarrow> ref \<Rightarrow> error + RBtree" where
  "Case_I6 T P = store T P (\<lambda>n. n\<lparr>color := BLACK\<rparr>)"

text \<open>\<^verbatim>\<open>Case_I5\<close>, lines 53 to 57.\<close>

definition Case_I5 :: "RBtree \<Rightarrow> ref \<Rightarrow> ref \<Rightarrow> dir \<Rightarrow> error + RBtree" where
  "Case_I5 T P G d =
     bind (store T P (\<lambda>n. n\<lparr>color := BLACK\<rparr>)) (\<lambda>T1.
     bind (store T1 G (\<lambda>n. n\<lparr>color := RED\<rparr>)) (\<lambda>T2.
       RotateDirRoot T2 G (other d)))"

text \<open>\<^verbatim>\<open>Case_I45\<close>, lines 43 to 57; \<^verbatim>\<open>Case_I4\<close> falls through to \<^verbatim>\<open>Case_I5\<close>.\<close>

definition Case_I45 :: "RBtree \<Rightarrow> ref \<Rightarrow> ref \<Rightarrow> ref \<Rightarrow> error + RBtree" where
  "Case_I45 T P G N =
     bind (childDir T P) (\<lambda>d.
     bind (deref T P) (\<lambda>pn.
       if N = child pn (other d)
       then
         bind (RotateDir T P d) (\<lambda>T1.
         bind (deref T1 G) (\<lambda>gn.
           Case_I5 T1 (child gn d) G d))
       else Case_I5 T P G d))"

text \<open>
  One pass through the body of the do-while loop, lines 21 to 38, with the loop
  condition: either the function returns, or the loop goes on with a new \<open>P\<close> and \<open>N\<close>.
\<close>

datatype step = Return "error + RBtree" | Again RBtree ref ref

definition Case_I1 :: "RBtree \<Rightarrow> ref \<Rightarrow> ref \<Rightarrow> ref \<Rightarrow> error + RBtree" where
  "Case_I1 T P U G =
     bind (store T P (\<lambda>n. n\<lparr>color := BLACK\<rparr>)) (\<lambda>T1.
     bind (store T1 U (\<lambda>n. n\<lparr>color := BLACK\<rparr>)) (\<lambda>T2.
       store T2 G (\<lambda>n. n\<lparr>color := RED\<rparr>)))"

definition loop_body :: "RBtree \<Rightarrow> ref \<Rightarrow> ref \<Rightarrow> step" where
  "loop_body T P N =
     (case deref T P of
        Inl e \<Rightarrow> Return (Inl e)
      | Inr pn \<Rightarrow>
          if color pn = BLACK then Return (Inr T)
          else
            (case GetParent T P of
               Inl e \<Rightarrow> Return (Inl e)
             | Inr G \<Rightarrow>
                 if G = None then Return (Case_I6 T P)
                 else
                   (case GetUncle T N of
                      Inl e \<Rightarrow> Return (Inl e)
                    | Inr U \<Rightarrow>
                        if U = None then Return (Case_I45 T P G N)
                        else
                          (case deref T U of
                             Inl e \<Rightarrow> Return (Inl e)
                           | Inr un \<Rightarrow>
                               if color un = BLACK then Return (Case_I45 T P G N)
                               else
                                 (case Case_I1 T P U G of
                                    Inl e \<Rightarrow> Return (Inl e)
                                  | Inr T' \<Rightarrow>
                                      (case deref T' G of
                                         Inl e \<Rightarrow> Return (Inl e)
                                       | Inr gn \<Rightarrow>
                                           if parent gn = None then Return (Inr T')
                                           else Again T' (parent gn) G))))))"

text \<open>
  The do-while loop. It runs as long as the body asks for another pass; a run that
  never returns has the value \<open>None\<close>.
\<close>

partial_function (option) RBloop :: "RBtree \<Rightarrow> ref \<Rightarrow> ref \<Rightarrow> (error + RBtree) option" where
  "RBloop T P N =
     (case loop_body T P N of
        Return r \<Rightarrow> Some r
      | Again T' P' N' \<Rightarrow> RBloop T' P' N')"

definition RBinsert1 :: "RBtree \<Rightarrow> ref \<Rightarrow> ref \<Rightarrow> dir \<Rightarrow> (error + RBtree) option" where
  "RBinsert1 T P N d =
     (case RBlink T P N d of
        Inl e \<Rightarrow> Some (Inl e)
      | Inr T' \<Rightarrow> if P = None then Some (Inr T') else RBloop T' P N)"

section \<open>The caller of \<^verbatim>\<open>RBinsert1\<close>\<close>

text \<open>
  Modelled from the spec: the descent that finds the parent and the side for a new key
  (section 4.2) is not in the sources. It starts at the root, compares the key with each
  visited node's key and stops at an absent child. Equal keys go to the right (the
  specification leaves the policy to the implementer).
\<close>

partial_function (option) find_slot :: "RBtree \<Rightarrow> int \<Rightarrow> ref \<Rightarrow> (error + ref \<times> dir) option" where
  "find_slot T k p =
     (case deref T p of
        Inl e \<Rightarrow> Some (Inl e)
      | Inr n \<Rightarrow>
          if child n (if k < key n then LEFT else RIGHT) = None
          then Some (Inr (p, if k < key n then LEFT else RIGHT))
          else find_slot T k (child n (if k < key n then LEFT else RIGHT)))"

text \<open>
  Modelled from the spec: allocation of the node for a new key is not in the sources.
  The new node goes to the end of the store; \<^verbatim>\<open>RBinsert1\<close> sets every field but the
  key.
\<close>

definition new_node :: "int \<Rightarrow> RBnode" where
  "new_node k = \<lparr>key = k, color = BLACK, parent = None, left = None, right = None\<rparr>"

definition alloc :: "RBtree \<Rightarrow> int \<Rightarrow> RBtree \<times> ref" where
  "alloc T k = (T\<lparr>nodes := nodes T @ [new_node k]\<rparr>, Some (length (nodes T)))"

text \<open>
  Modelled from the spec: \<open>insert(key)\<close> of section 6, which is not in the sources: find
  the slot, allocate the node, call \<^verbatim>\<open>RBinsert1\<close>.
\<close>

definition insert_key :: "RBtree \<Rightarrow> int \<Rightarrow> (error + RBtree) option" where
  "insert_key T k =
     (case alloc T k of
        (T0, N) \<Rightarrow>
          if root T = None then RBinsert1 T0 None N LEFT
          else
            (case find_slot T0 k (root T) of
               None \<Rightarrow> None
             | Some (Inl e) \<Rightarrow> Some (Inl e)
             | Some (Inr (P, d)) \<Rightarrow> RBinsert1 T0 P N d))"

fun insert_all :: "RBtree \<Rightarrow> int list \<Rightarrow> (error + RBtree) option" where
  "insert_all T [] = Some (Inr T)"
| "insert_all T (k # ks) =
     (case insert_key T k of
        None \<Rightarrow> None
      | Some (Inl e) \<Rightarrow> Some (Inl e)
      | Some (Inr T') \<Rightarrow> insert_all T' ks)"

definition empty_tree :: RBtree where
  "empty_tree = \<lparr>root = None, nodes = []\<rparr>"

section \<open>\<^verbatim>\<open>rb_insert\<close> (\<^verbatim>\<open>thing.c\<close>)\<close>

text \<open>
  Modelled from the spec: \<^verbatim>\<open>tree_insert\<close> is not in the sources. Section 4.2: the node
  is linked as a leaf, with both children absent, below the node where the descent
  stops, or as the root of an empty tree.
\<close>

definition tree_insert :: "RBtree \<Rightarrow> ref \<Rightarrow> (error + RBtree) option" where
  "tree_insert T x =
     (case deref T x of
        Inl e \<Rightarrow> Some (Inl e)
      | Inr xn \<Rightarrow>
          if root T = None
          then Some (bind (store T x (\<lambda>n. n\<lparr>parent := None, left := None, right := None\<rparr>))
                 (\<lambda>T1. Inr (T1\<lparr>root := x\<rparr>)))
          else
            (case find_slot T (key xn) (root T) of
               None \<Rightarrow> None
             | Some (Inl e) \<Rightarrow> Some (Inl e)
             | Some (Inr (P, d)) \<Rightarrow>
                 Some (bind (store T x (\<lambda>n. n\<lparr>parent := P, left := None, right := None\<rparr>))
                   (\<lambda>T1. store T1 P (set_child d x)))))"

text \<open>
  Modelled from the spec: \<^verbatim>\<open>left_rotate\<close> and \<^verbatim>\<open>right_rotate\<close> are not in the
  sources; they are the root-aware rotation of section 4.1 to the left and to the right.
\<close>

definition left_rotate :: "RBtree \<Rightarrow> ref \<Rightarrow> error + RBtree" where
  "left_rotate T x = rotate True T x LEFT"

definition right_rotate :: "RBtree \<Rightarrow> ref \<Rightarrow> error + RBtree" where
  "right_rotate T x = rotate True T x RIGHT"

text \<open>
  Cases 2 and 3, lines 19 to 29, for a parent that is a left child: when \<open>x\<close> is a right
  child, \<open>x\<close> moves up to its parent, which is rotated to the left (case 2); then the
  parent of \<open>x\<close> is coloured BLACK, its grandparent RED, and the grandparent is rotated
  to the right (case 3). The result is the store and the new \<open>x\<close>.
\<close>

definition rb_cases23 :: "RBtree \<Rightarrow> ref \<Rightarrow> error + RBtree \<times> ref" where
  "rb_cases23 T x =
     bind (deref T x) (\<lambda>xn.
     bind (deref T (parent xn)) (\<lambda>pn.
     bind (if x = right pn
           then bind (left_rotate T (parent xn)) (\<lambda>T1. Inr (T1, parent xn))
           else Inr (T, x)) (\<lambda>(T1, x1).
     bind (deref T1 x1) (\<lambda>xn1.
     bind (store T1 (parent xn1) (\<lambda>n. n\<lparr>color := BLACK\<rparr>)) (\<lambda>T2.
     bind (deref T2 (parent xn1)) (\<lambda>pn1.
     bind (store T2 (parent pn1) (\<lambda>n. n\<lparr>color := RED\<rparr>)) (\<lambda>T3.
     bind (right_rotate T3 (parent pn1)) (\<lambda>T4. Inr (T4, x1)))))))))"

text \<open>
  The ``if'' part of the loop body, lines 8 to 30: \<open>y\<close> is the right child of the
  grandparent, and its colour is read without a test of \<open>y\<close>. Case 1 recolours and moves
  \<open>x\<close> to the grandparent.
\<close>

definition rb_branch :: "RBtree \<Rightarrow> ref \<Rightarrow> error + RBtree \<times> ref" where
  "rb_branch T x =
     bind (deref T x) (\<lambda>xn.
     bind (deref T (parent xn)) (\<lambda>pn.
     bind (deref T (parent pn)) (\<lambda>gn.
     bind (deref T (right gn)) (\<lambda>yn.
       if color yn = RED
       then
         bind (store T (parent xn) (\<lambda>n. n\<lparr>color := BLACK\<rparr>)) (\<lambda>T1.
         bind (store T1 (right gn) (\<lambda>n. n\<lparr>color := BLACK\<rparr>)) (\<lambda>T2.
         bind (store T2 (parent pn) (\<lambda>n. n\<lparr>color := RED\<rparr>)) (\<lambda>T3.
           Inr (T3, parent pn))))
       else rb_cases23 T x))))"

text \<open>
  One pass of the while loop, lines 6 to 36: the loop condition, then the test whether
  the parent of \<open>x\<close> is a left child. The else part, lines 32 to 35, holds nothing but the
  comment ``repeat the "if" part with right and left exchanged'': when the parent is not
  a left child the pass changes neither the store nor \<open>x\<close>, and the loop goes on.
\<close>

datatype cstep = Exit RBtree | Fail error | Next RBtree ref

definition rb_body :: "RBtree \<Rightarrow> ref \<Rightarrow> cstep" where
  "rb_body T x =
     (if x = root T then Exit T
      else
        (case deref T x of
           Inl e \<Rightarrow> Fail e
         | Inr xn \<Rightarrow>
             (case deref T (parent xn) of
                Inl e \<Rightarrow> Fail e
              | Inr pn \<Rightarrow>
                  if color pn \<noteq> RED then Exit T
                  else
                    (case deref T (parent pn) of
                       Inl e \<Rightarrow> Fail e
                     | Inr gn \<Rightarrow>
                         if parent xn = left gn
                         then
                           (case rb_branch T x of
                              Inl e \<Rightarrow> Fail e
                            | Inr (T', x') \<Rightarrow> Next T' x')
                         else Next T x))))"

text \<open>
  The while loop. A run that never leaves the loop has the value \<open>None\<close>.
\<close>

partial_function (option) rb_loop :: "RBtree \<Rightarrow> ref \<Rightarrow> (error + RBtree) option" where
  "rb_loop T x =
     (case rb_body T x of
        Exit T' \<Rightarrow> Some (Inr T')
      | Fail e \<Rightarrow> Some (Inl e)
      | Next T' x' \<Rightarrow> rb_loop T' x')"

text \<open>
  \<^verbatim>\<open>rb_insert\<close>, lines 1 to 39: the node is inserted as a leaf and coloured RED, the loop
  runs, and the root is coloured BLACK.
\<close>

definition rb_insert :: "RBtree \<Rightarrow> ref \<Rightarrow> (error + RBtree) option" where
  "rb_insert T x =
     (case tree_insert T x of
        None \<Rightarrow> None
      | Some (Inl e) \<Rightarrow> Some (Inl e)
      | Some (Inr T1) \<Rightarrow>
          (case store T1 x (\<lambda>n. n\<lparr>color := RED\<rparr>) of
             Inl e \<Rightarrow> Some (Inl e)
           | Inr T2 \<Rightarrow>
               (case rb_loop T2 x of
                  None \<Rightarrow> None
                | Some (Inl e) \<Rightarrow> Some (Inl e)
                | Some (Inr T3) \<Rightarrow> Some (store T3 (root T3) (\<lambda>n. n\<lparr>color := BLACK\<rparr>)))))"

section \<open>The tree a store holds, and the invariants of section 3\<close>

text \<open>
  A snapshot of the tree below a pointer: the address, colour and key of every node.
\<close>

datatype rbt = Leaf | Node rbt nat color int rbt

fun addrs :: "rbt \<Rightarrow> nat list" where
  "addrs Leaf = []"
| "addrs (Node l a c k r) = addrs l @ a # addrs r"

fun keys :: "rbt \<Rightarrow> int list" where
  "keys Leaf = []"
| "keys (Node l a c k r) = keys l @ k # keys r"

text \<open>
  Following the child links from pointer \<open>p\<close>, at most \<open>n\<close> levels deep, checking that
  every pointer is in the store and that every parent link points back (section 3: the
  parent links must be consistent with the child links).
\<close>

fun tree_of :: "nat \<Rightarrow> RBtree \<Rightarrow> ref \<Rightarrow> ref \<Rightarrow> rbt option" where
  "tree_of n T par None = Some Leaf"
| "tree_of 0 T par (Some a) = None"
| "tree_of (Suc n) T par (Some a) =
     (if a < length (nodes T) \<and> parent (nodes T ! a) = par
      then
        (case tree_of n T (Some a) (left (nodes T ! a)) of
           None \<Rightarrow> None
         | Some l \<Rightarrow>
             (case tree_of n T (Some a) (right (nodes T ! a)) of
                None \<Rightarrow> None
              | Some r \<Rightarrow> Some (Node l a (color (nodes T ! a)) (key (nodes T ! a)) r)))
      else None)"

text \<open>
  The tree of a store: a store with \<open>n\<close> nodes holds no tree deeper than \<open>n\<close>; no node
  may occur twice.
\<close>

definition the_tree :: "RBtree \<Rightarrow> rbt option" where
  "the_tree T =
     (case tree_of (length (nodes T)) T None (root T) of
        None \<Rightarrow> None
      | Some t \<Rightarrow> if distinct (addrs t) then Some t else None)"

text \<open>Invariant 2: the root is BLACK (an absent root counts as BLACK, invariant 1).\<close>

fun root_color :: "rbt \<Rightarrow> color" where
  "root_color Leaf = BLACK"
| "root_color (Node l a c k r) = c"

text \<open>Invariant 3: no RED node has a RED child.\<close>

fun no_red_red :: "rbt \<Rightarrow> bool" where
  "no_red_red Leaf = True"
| "no_red_red (Node l a c k r) =
     ((c = RED \<longrightarrow> root_color l = BLACK \<and> root_color r = BLACK) \<and> no_red_red l \<and> no_red_red r)"

text \<open>
  Invariant 4: every path from a node to an absent leaf crosses the same number of BLACK
  nodes. \<open>bheight\<close> counts the BLACK nodes on the leftmost path, the node included.
\<close>

fun bheight :: "rbt \<Rightarrow> nat" where
  "bheight Leaf = 0"
| "bheight (Node l a c k r) = (if c = BLACK then Suc (bheight l) else bheight l)"

fun balanced :: "rbt \<Rightarrow> bool" where
  "balanced Leaf = True"
| "balanced (Node l a c k r) = (bheight l = bheight r \<and> balanced l \<and> balanced r)"

text \<open>
  Invariant 5: all keys in the left subtree of a node are at most its key, all keys in
  its right subtree are at least its key.
\<close>

fun ordered :: "rbt \<Rightarrow> bool" where
  "ordered Leaf = True"
| "ordered (Node l a c k r) =
     (list_all (\<lambda>x. x \<le> k) (keys l) \<and> list_all (\<lambda>x. k \<le> x) (keys r) \<and> ordered l \<and> ordered r)"

text \<open>
  Modelled from the spec: \<open>validate()\<close> of section 6 is not in the sources. It checks the
  five invariants of section 3 (invariant 1 holds of every snapshot: a colour is RED or
  BLACK, an absent leaf counts as BLACK) on the tree the store holds.
\<close>

definition validate :: "RBtree \<Rightarrow> bool" where
  "validate T =
     (case the_tree T of
        None \<Rightarrow> False
      | Some t \<Rightarrow> root_color t = BLACK \<and> no_red_red t \<and> balanced t \<and> ordered t)"

text \<open>The same without invariant 2.\<close>

definition validate_but_root :: "RBtree \<Rightarrow> bool" where
  "validate_but_root T =
     (case the_tree T of
        None \<Rightarrow> False
      | Some t \<Rightarrow> no_red_red t \<and> balanced t \<and> ordered t)"

section \<open>Observations and example stores\<close>

text \<open>Two stores have the same links: no child link, parent link or root changed.\<close>

definition same_links :: "RBtree \<Rightarrow> RBtree \<Rightarrow> bool" where
  "same_links T T' \<longleftrightarrow>
     root T' = root T \<and>
     map parent (nodes T') = map parent (nodes T) \<and>
     map left (nodes T') = map left (nodes T) \<and>
     map right (nodes T') = map right (nodes T)"

text \<open>Two stores hold the same nodes with the same keys: none was created or removed.\<close>

definition keys_same :: "RBtree \<Rightarrow> RBtree \<Rightarrow> bool" where
  "keys_same T T' \<longleftrightarrow> map key (nodes T') = map key (nodes T)"

text \<open>
  The tree held by the store a call returned, if it returned one.
\<close>

definition result_tree :: "(error + RBtree) option \<Rightarrow> rbt option" where
  "result_tree r = (case r of Some (Inr T) \<Rightarrow> the_tree T | _ \<Rightarrow> None)"

text \<open>
  The key at the root of a snapshot.
\<close>

fun root_key :: "rbt \<Rightarrow> int option" where
  "root_key Leaf = None"
| "root_key (Node l a c k r) = Some k"

text \<open>
  \<open>validate\<close> on the result of a call; a call that fails or does not return does not
  validate.
\<close>

definition validated :: "(error + RBtree) option \<Rightarrow> bool" where
  "validated r = (case r of Some (Inr T) \<Rightarrow> validate T | _ \<Rightarrow> False)"

definition validated_but_root :: "(error + RBtree) option \<Rightarrow> bool" where
  "validated_but_root r = (case r of Some (Inr T) \<Rightarrow> validate_but_root T | _ \<Rightarrow> False)"

text \<open>
  A node written out field by field, for the example stores.
\<close>

definition mk :: "int \<Rightarrow> color \<Rightarrow> ref \<Rightarrow> ref \<Rightarrow> ref \<Rightarrow> RBnode" where
  "mk k c p l r = \<lparr>key = k, color = c, parent = p, left = l, right = r\<rparr>"


text \<open>
  Node 5 has just been linked below the red node 3, whose sibling 4 is red too; their
  parent 1 is the left child of the root 0.
\<close>

definition ex_uncle_red :: RBtree where
  "ex_uncle_red = \<lparr>root = Some 0, nodes =
     [mk 50 BLACK None (Some 1) (Some 2),
      mk 20 BLACK (Some 0) (Some 3) (Some 4),
      mk 70 BLACK (Some 0) None None,
      mk 10 RED (Some 1) (Some 5) None,
      mk 30 RED (Some 1) None None,
      mk 5 RED (Some 3) None None]\<rparr>"

declare RBloop.simps [code]

declare find_slot.simps [code]

declare rb_loop.simps [code]

text \<open>
  The black root 1 has two red children 0 and 2; node 3 has just been linked below
  node 2. The recolouring ends at the root.
\<close>

definition ex_root_uncle_red :: RBtree where
  "ex_root_uncle_red = \<lparr>root = Some 1, nodes =
     [mk 1 RED (Some 1) None None,
      mk 2 BLACK None (Some 0) (Some 2),
      mk 3 RED (Some 1) None (Some 3),
      mk 4 RED (Some 2) None None]\<rparr>"

text \<open>
  An empty tree and one node not yet linked.
\<close>

definition ex_fresh :: RBtree where
  "ex_fresh = \<lparr>root = None, nodes = [mk 1 BLACK None None None]\<rparr>"

text \<open>
  The nodes that can be reached from the root along child links.
\<close>

inductive reach :: "RBtree \<Rightarrow> nat \<Rightarrow> bool" for T where
  reach_root: "root T = Some a \<Longrightarrow> reach T a"
| reach_child: "reach T a \<Longrightarrow> a < length (nodes T) \<Longrightarrow> child (nodes T ! a) d = Some b \<Longrightarrow> reach T b"

text \<open>
  The left slot of the root 0 holds node 1; node 2 is not yet linked.
\<close>

definition ex_overwrite :: RBtree where
  "ex_overwrite = \<lparr>root = Some 0, nodes =
     [mk 10 BLACK None (Some 1) None,
      mk 5 RED (Some 0) None None,
      mk 3 BLACK None None None]\<rparr>"

text \<open>
  Node 2 has just been linked below the red node 1, the left child of the root 0; the
  root has no right child, so node 2 has no uncle.
\<close>

definition ex_left_parent :: RBtree where
  "ex_left_parent = \<lparr>root = Some 0, nodes =
     [mk 30 BLACK None (Some 1) None,
      mk 20 RED (Some 0) (Some 2) None,
      mk 10 RED (Some 1) None None]\<rparr>"

text \<open>
  Three nodes with the keys 1, 2 and 3, none of them linked, and an empty tree.
\<close>

definition ex_three_fresh :: RBtree where
  "ex_three_fresh = \<lparr>root = None, nodes =
     [mk 1 BLACK None None None,
      mk 2 BLACK None None None,
      mk 3 BLACK None None None]\<rparr>"

text \<open>
  The tree that \<^verbatim>\<open>rb_insert\<close> builds from the nodes 0 and 1 of \<open>ex_three_fresh\<close>: the black
  root with key 1 and its red right child with key 2. Node 2, with key 3, is not linked.
\<close>

definition ex_two_inserted :: RBtree where
  "ex_two_inserted = \<lparr>root = Some 0, nodes =
     [mk 1 BLACK None None (Some 1),
      mk 2 RED (Some 0) None None,
      mk 3 BLACK None None None]\<rparr>"

text \<open>
  The same tree after \<^verbatim>\<open>tree_insert\<close> has linked node 2 and line 5 has coloured it RED:
  its parent, node 1, is RED and is the right child of the root.
\<close>

definition ex_right_parent :: RBtree where
  "ex_right_parent = \<lparr>root = Some 0, nodes =
     [mk 1 BLACK None None (Some 1),
      mk 2 RED (Some 0) None (Some 2),
      mk 3 RED (Some 1) None None]\<rparr>"

text \<open>The only child link that leads to node \<open>c\<close> is the \<open>d\<close>-side link of node \<open>p\<close>.\<close>

definition only_link :: "RBtree \<Rightarrow> nat \<Rightarrow> nat \<Rightarrow> dir \<Rightarrow> bool" where
  "only_link T c p d \<longleftrightarrow>
     list_all (\<lambda>a. list_all (\<lambda>d'. child (nodes T ! a) d' = Some c \<longrightarrow> a = p \<and> d' = d) [LEFT, RIGHT])
       [0..<length (nodes T)]"

section \<open>Snapshots of the store: the vocabulary of the invariant proofs\<close>

text \<open>
  The store holds the snapshot \<open>t\<close> below pointer \<open>p\<close>, whose parent link is \<open>par\<close>:
  addresses are in the store, colours and keys agree, child links lead to the subtrees
  and parent links lead back.
\<close>

fun rep :: "RBtree \<Rightarrow> ref \<Rightarrow> ref \<Rightarrow> rbt \<Rightarrow> bool" where
  "rep T par p Leaf = (p = None)"
| "rep T par p (Node l a c k r) =
     (p = Some a \<and> a < length (nodes T) \<and> parent (nodes T ! a) = par \<and>
      color (nodes T ! a) = c \<and> key (nodes T ! a) = k \<and>
      rep T (Some a) (left (nodes T ! a)) l \<and> rep T (Some a) (right (nodes T ! a)) r)"

text \<open>
  The address at the root of a snapshot.
\<close>

fun root_addr :: "rbt \<Rightarrow> ref" where
  "root_addr Leaf = None"
| "root_addr (Node l a c k r) = Some a"

text \<open>
  The subtree at address \<open>g\<close>; \<open>modify g f\<close> replaces it by its image under \<open>f\<close>.
\<close>

fun sub :: "nat \<Rightarrow> rbt \<Rightarrow> rbt" where
  "sub g Leaf = Leaf"
| "sub g (Node l a c k r) =
     (if a = g then Node l a c k r
      else if g \<in> set (addrs l) then sub g l else sub g r)"

fun modify :: "nat \<Rightarrow> (rbt \<Rightarrow> rbt) \<Rightarrow> rbt \<Rightarrow> rbt" where
  "modify g f Leaf = Leaf"
| "modify g f (Node l a c k r) =
     (if a = g then f (Node l a c k r) else Node (modify g f l) a c k (modify g f r))"

text \<open>
  The snapshot after the colour of node \<open>x\<close> was set.
\<close>

fun paint :: "nat \<Rightarrow> color \<Rightarrow> rbt \<Rightarrow> rbt" where
  "paint x c' Leaf = Leaf"
| "paint x c' (Node l a c k r) = Node (paint x c' l) a (if a = x then c' else c) k (paint x c' r)"

text \<open>
  The snapshot of a subtree after a rotation of its root to the left or to the right.
\<close>

fun rot :: "dir \<Rightarrow> rbt \<Rightarrow> rbt" where
  "rot LEFT (Node a x cx kx (Node b y cy ky c)) = Node (Node a x cx kx b) y cy ky c"
| "rot RIGHT (Node (Node a x cx kx b) y cy ky c) = Node a x cx kx (Node b y cy ky c)"
| "rot d t = t"

text \<open>
  Invariant 3 with one exception: a RED node may have the RED child \<open>x\<close>. This is the
  state of the tree while the fixup works on the current node \<open>x\<close>.
\<close>

fun rrx :: "nat \<Rightarrow> rbt \<Rightarrow> bool" where
  "rrx x Leaf = True"
| "rrx x (Node l a c k r) =
     ((c = RED \<longrightarrow> (root_color l = BLACK \<or> root_addr l = Some x) \<and>
                  (root_color r = BLACK \<or> root_addr r = Some x)) \<and>
      rrx x l \<and> rrx x r)"

text \<open>
  A node written with its \<open>d\<close>-side subtree first.
\<close>

definition nodeD :: "dir \<Rightarrow> rbt \<Rightarrow> nat \<Rightarrow> color \<Rightarrow> int \<Rightarrow> rbt \<Rightarrow> rbt" where
  "nodeD d x a c k y = (case d of LEFT \<Rightarrow> Node x a c k y | RIGHT \<Rightarrow> Node y a c k x)"

text \<open>
  The state at the head of the fixup loop: the store holds a tree \<open>t\<close> with consistent
  links and no node twice; the current node \<open>n\<close> is in it, is RED and has the parent
  \<open>p\<close>; invariant 4 holds and invariant 3 holds except for a RED parent of \<open>n\<close>.
\<close>

definition loop_inv :: "RBtree \<Rightarrow> rbt \<Rightarrow> nat \<Rightarrow> nat \<Rightarrow> bool" where
  "loop_inv T t n p \<longleftrightarrow>
     rep T None (root T) t \<and> distinct (addrs t) \<and> n \<in> set (addrs t) \<and>
     parent (nodes T ! n) = Some p \<and> color (nodes T ! n) = RED \<and> rrx n t \<and> balanced t"

text \<open>
  The state the fixup returns: the store holds a tree with the same nodes and keys, and
  invariants 3 and 4 hold.
\<close>

definition good :: "RBtree \<Rightarrow> rbt \<Rightarrow> rbt \<Rightarrow> bool" where
  "good T' t t' \<longleftrightarrow>
     rep T' None (root T') t' \<and> addrs t' = addrs t \<and> keys t' = keys t \<and>
     no_red_red t' \<and> balanced t'"

text \<open>
  \<open>chain T q m\<close>: following the parent links from \<open>q\<close> ends after \<open>m\<close> nodes.
\<close>

inductive chain :: "RBtree \<Rightarrow> ref \<Rightarrow> nat \<Rightarrow> bool" for T where
  chain_None: "chain T None 0"
| chain_Some: "a < length (nodes T) \<Longrightarrow> chain T (parent (nodes T ! a)) m \<Longrightarrow> chain T (Some a) (Suc m)"

text \<open>
  The snapshot with a new \<open>d\<close>-side subtree below its root.
\<close>

fun graft :: "dir \<Rightarrow> rbt \<Rightarrow> rbt \<Rightarrow> rbt" where
  "graft d new Leaf = Leaf"
| "graft LEFT new (Node l a c k r) = Node new a c k r"
| "graft RIGHT new (Node l a c k r) = Node l a c k new"

text \<open>
  The state between two inserts: consistent links, no node twice, invariants 3, 4
  and 5 (the keys read from left to right are sorted).
\<close>

definition inv :: "RBtree \<Rightarrow> rbt \<Rightarrow> bool" where
  "inv T t \<longleftrightarrow>
     rep T None (root T) t \<and> distinct (addrs t) \<and> no_red_red t \<and> balanced t \<and> sorted (keys t)"

text \<open>
  The number of nodes on the longest path of a snapshot.
\<close>

fun depth :: "rbt \<Rightarrow> nat" where
  "depth Leaf = 0"
| "depth (Node l a c k r) = Suc (max (depth l) (depth r))"

text \<open>
  The snapshot held by \<open>ex_uncle_red\<close>.
\<close>

definition ex_uncle_red_tree :: rbt where
  "ex_uncle_red_tree =
     Node (Node (Node (Node Leaf 5 RED 5 Leaf) 3 RED 10 Leaf) 1 BLACK 20 (Node Leaf 4 RED 30 Leaf))
       0 BLACK 50 (Node Leaf 2 BLACK 70 Leaf)"



definition ex_right_parent_tree :: rbt where
  "ex_right_parent_tree = Node Leaf 0 BLACK 1 (Node Leaf 1 RED 2 (Node Leaf 2 RED 3 Leaf))"
section \<open>Reading and writing the store\<close>

lemma bind_Inl [simp]: "bind (Inl e) f = Inl e"
  by (simp add: bind_def)

lemma bind_Inr [simp]: "bind (Inr x) f = f x"
  by (simp add: bind_def)

lemma bindE:
  assumes "bind m f = Inr y"
  obtains x where "m = Inr x" and "f x = Inr y"
  using assms by (cases m) auto

lemma bind_Inr_iff: "bind m f = Inr y \<longleftrightarrow> (\<exists>x. m = Inr x \<and> f x = Inr y)"
  by (cases m) auto

lemma deref_None [simp]: "deref T None = Inl NullDeref"
  by (simp add: deref_def)

lemma deref_Some [simp]:
  "a < length (nodes T) \<Longrightarrow> deref T (Some a) = Inr (nodes T ! a)"
  by (simp add: deref_def)

lemma deref_Inr_iff:
  "deref T p = Inr n \<longleftrightarrow> (\<exists>a. p = Some a \<and> a < length (nodes T) \<and> n = nodes T ! a)"
  by (auto simp: deref_def split: option.splits)

lemma store_None [simp]: "store T None f = Inl NullDeref"
  by (simp add: store_def)

lemma store_Some [simp]:
  "a < length (nodes T) \<Longrightarrow>
   store T (Some a) f = Inr (T\<lparr>nodes := (nodes T)[a := f (nodes T ! a)]\<rparr>)"
  by (simp add: store_def)

lemma store_Inr_iff:
  "store T p f = Inr T' \<longleftrightarrow>
   (\<exists>a. p = Some a \<and> a < length (nodes T) \<and> T' = T\<lparr>nodes := (nodes T)[a := f (nodes T ! a)]\<rparr>)"
  by (auto simp: store_def split: option.splits)

lemma not_BLACK [simp]: "c \<noteq> BLACK \<longleftrightarrow> c = RED"
  by (cases c) auto

lemma not_RED [simp]: "c \<noteq> RED \<longleftrightarrow> c = BLACK"
  by (cases c) auto

lemma fields_set_child [simp]:
  "color (set_child d c n) = color n" "parent (set_child d c n) = parent n"
  "key (set_child d c n) = key n"
  "child (set_child d c n) d' = (if d' = d then c else child n d')"
  by (cases d; cases d'; simp)+

lemma map_update_same:
  "a < length xs \<Longrightarrow> f v = f (xs ! a) \<Longrightarrow> map f (xs[a := v]) = map f xs"
  by (simp add: map_update list_update_same_conv)

subsection \<open>Stores that keep the links, stores that keep the nodes\<close>

lemma same_links_refl [simp]: "same_links A A"
  by (simp add: same_links_def)

lemma same_links_trans: "same_links A B \<Longrightarrow> same_links B C \<Longrightarrow> same_links A C"
  by (simp add: same_links_def)

lemma store_color_links:
  "store T p (\<lambda>n. n\<lparr>color := c\<rparr>) = Inr T' \<Longrightarrow> same_links T T'"
  by (auto simp: store_Inr_iff same_links_def map_update_same)

lemma keys_same_refl [simp]: "keys_same T T"
  by (simp add: keys_same_def)




lemma store_color_keys:
  "store T p (\<lambda>n. n\<lparr>color := c\<rparr>) = Inr T' \<Longrightarrow> map key (nodes T') = map key (nodes T)"
  by (auto simp: store_Inr_iff map_update_same)




lemma Case_I1_keys_same:
  assumes "Case_I1 T P U G = Inr T'"
  shows "keys_same T T'"
  using assms unfolding Case_I1_def
  by (auto elim!: bindE dest!: store_color_keys simp: keys_same_def)

lemma Case_I1_links:
  assumes "Case_I1 T P U G = Inr T'"
  shows "same_links T T'"
  using assms unfolding Case_I1_def
  by (auto elim!: bindE dest!: store_color_links intro: same_links_trans)

subsection \<open>The passes of the loop\<close>

lemma loop_body_Again:
  assumes "loop_body T P N = Again T' P' N'"
  shows "\<exists>p g u. P = Some p \<and> p < length (nodes T) \<and> color (nodes T ! p) = RED \<and>
           parent (nodes T ! p) = Some g \<and> GetUncle T N = Inr (Some u) \<and>
           u < length (nodes T) \<and> color (nodes T ! u) = RED \<and>
           Case_I1 T P (Some u) (Some g) = Inr T' \<and> g < length (nodes T') \<and>
           N' = Some g \<and> P' = parent (nodes T' ! g) \<and> P' \<noteq> None"
  using assms unfolding loop_body_def GetParent_def
  by (auto simp: deref_Inr_iff bind_def split: sum.splits if_splits)





lemma RBlink_Some:
  assumes "n < length (nodes T)" "p < length (nodes T)" "p \<noteq> n"
  shows "RBlink T (Some p) (Some n) d =
     Inr (T\<lparr>nodes := (nodes T)
        [n := (nodes T ! n)\<lparr>color := RED, left := None, right := None, parent := Some p\<rparr>,
         p := set_child d (Some n) (nodes T ! p)]\<rparr>)"
  using assms by (simp add: RBlink_def)

lemma RBlink_None:
  assumes "n < length (nodes T)"
  shows "RBlink T None (Some n) d =
     Inr (T\<lparr>root := Some n, nodes := (nodes T)
        [n := (nodes T ! n)\<lparr>color := RED, left := None, right := None, parent := None\<rparr>]\<rparr>)"
  using assms by (simp add: RBlink_def)


lemma Case_I1_colors:
  assumes "Case_I1 T (Some p) (Some u) (Some g) = Inr T'" "g \<noteq> p" "g \<noteq> u"
  shows "color (nodes T' ! p) = BLACK \<and> color (nodes T' ! u) = BLACK \<and>
         color (nodes T' ! g) = RED \<and>
         (\<forall>a. a \<noteq> p \<longrightarrow> a \<noteq> u \<longrightarrow> a \<noteq> g \<longrightarrow> nodes T' ! a = nodes T ! a)"
  using assms unfolding Case_I1_def
  by (auto simp: store_Inr_iff bind_Inr_iff nth_list_update)

lemma Case_I1_Some:
  assumes "p < length (nodes T)" "u < length (nodes T)" "g < length (nodes T)"
  shows "\<exists>T'. Case_I1 T (Some p) (Some u) (Some g) = Inr T'"
  using assms by (simp add: Case_I1_def)

lemma same_links_parent:
  "same_links T T' \<Longrightarrow> a < length (nodes T) \<Longrightarrow> parent (nodes T' ! a) = parent (nodes T ! a)"
  unfolding same_links_def by (metis length_map nth_map)

lemma same_links_length:
  "same_links T T' \<Longrightarrow> length (nodes T') = length (nodes T)"
  unfolding same_links_def by (metis length_map)

lemma loop_body_red_uncle:
  assumes "p < length (nodes T)" and "color (nodes T ! p) = RED"
    and "parent (nodes T ! p) = Some g" and "g < length (nodes T)"
    and "GetUncle T N = Inr (Some u)" and "u < length (nodes T)"
    and "color (nodes T ! u) = RED"
    and "Case_I1 T (Some p) (Some u) (Some g) = Inr T'"
  shows "loop_body T (Some p) N =
           (if parent (nodes T ! g) = None then Return (Inr T')
            else Again T' (parent (nodes T ! g)) (Some g))"
proof -
  from assms(8) have "same_links T T'" by (rule Case_I1_links)
  with assms(4) have "parent (nodes T' ! g) = parent (nodes T ! g)" "g < length (nodes T')"
    by (simp_all add: same_links_parent same_links_length)
  with assms show ?thesis
    by (simp add: loop_body_def GetParent_def)
qed



lemma reach_no_link:
  assumes "reach T c"
  shows "root T = Some c \<or> (\<exists>a d. a < length (nodes T) \<and> child (nodes T ! a) d = Some c)"
  using assms by (induction rule: reach.induct) auto

lemma child_fresh [simp]:
  "child (n\<lparr>color := c, left := None, right := None, parent := P\<rparr>) d = None"
  by (cases d) auto

lemma rb_insert_root_black:
  assumes "rb_insert T x = Some (Inr T')"
  shows "\<exists>a. root T' = Some a \<and> a < length (nodes T') \<and> color (nodes T' ! a) = BLACK"
proof -
  from assms obtain T3 where "store T3 (root T3) (\<lambda>n. n\<lparr>color := BLACK\<rparr>) = Inr T'"
    unfolding rb_insert_def by (auto split: option.splits sum.splits)
  then show ?thesis by (auto simp: store_Inr_iff)
qed

lemma RBinsert1_empty_root_red:
  assumes "n < length (nodes T)"
  shows "\<exists>T1. RBinsert1 T None (Some n) d = Some (Inr T1) \<and> root T1 = Some n \<and>
           color (nodes T1 ! n) = RED"
  using assms by (simp add: RBinsert1_def RBlink_None)

lemma Case_I2_root_red:
  assumes "p < length (nodes T)" and "color (nodes T ! p) = RED"
    and "parent (nodes T ! p) = Some g" and "g < length (nodes T)"
    and "GetUncle T N = Inr (Some u)" and "u < length (nodes T)"
    and "color (nodes T ! u) = RED" and "g \<noteq> u"
    and "parent (nodes T ! g) = None"
  shows "\<exists>T'. RBloop T (Some p) N = Some (Inr T') \<and> root T' = root T \<and>
           color (nodes T' ! g) = RED"
proof -
  from assms obtain T' where T': "Case_I1 T (Some p) (Some u) (Some g) = Inr T'"
    using Case_I1_Some by blast
  from assms(3,9) have gp: "g \<noteq> p" by auto
  have "loop_body T (Some p) N = Return (Inr T')"
    using loop_body_red_uncle[OF assms(1-7) T'] assms(9) by simp
  then have "RBloop T (Some p) N = Some (Inr T')"
    by (subst RBloop.simps) simp
  moreover have "root T' = root T"
    using Case_I1_links[OF T'] by (simp add: same_links_def)
  moreover have "color (nodes T' ! g) = RED"
    using Case_I1_colors[OF T' gp assms(8)] by simp
  ultimately show ?thesis by blast
qed

lemma rb_insert_ex_fresh:
  "rb_insert ex_fresh (Some 0) = Some (Inr \<lparr>root = Some 0, nodes = [mk 1 BLACK None None None]\<rparr>)"
  by code_simp

lemma GetUncle_ex_root_uncle_red: "GetUncle ex_root_uncle_red (Some 3) = Inr (Some 0)"
  by (simp add: GetUncle_def GetParent_def childDir_def ex_root_uncle_red_def mk_def)

lemma only_linkD:
  assumes "only_link T c p d" and "a < length (nodes T)" and "child (nodes T ! a) d' = Some c"
  shows "a = p \<and> d' = d"
proof -
  from assms(1,2) have "list_all (\<lambda>d'. child (nodes T ! a) d' = Some c \<longrightarrow> a = p \<and> d' = d) [LEFT, RIGHT]"
    by (simp add: only_link_def list_all_iff)
  with assms(3) show ?thesis by (cases d') auto
qed

lemma rep_root_addr: "rep T par p t \<Longrightarrow> root_addr t = p"
  by (cases t) auto

lemma rep_valid: "rep T par p t \<Longrightarrow> a \<in> set (addrs t) \<Longrightarrow> a < length (nodes T)"
  by (induction t arbitrary: par p) auto

lemma root_addr_in: "root_addr t = Some a \<Longrightarrow> a \<in> set (addrs t)"
  by (cases t) auto

lemma modify_notin [simp]: "g \<notin> set (addrs t) \<Longrightarrow> modify g f t = t"
  by (induction t) auto

lemma paint_notin [simp]: "x \<notin> set (addrs t) \<Longrightarrow> paint x c t = t"
  by (induction t) auto

lemma addrs_paint [simp]: "addrs (paint x c t) = addrs t"
  by (induction t) auto

lemma keys_paint [simp]: "keys (paint x c t) = keys t"
  by (induction t) auto

lemma sub_in: "g \<in> set (addrs t) \<Longrightarrow> root_addr (sub g t) = Some g"
  by (induction t) auto

lemma addrs_sub: "set (addrs (sub g t)) \<subseteq> set (addrs t)"
  by (induction t) auto

text \<open>Frame: a store that agrees on the nodes of a subtree represents it as well.\<close>

lemma rep_frame:
  assumes "rep T par p t"
    and "length (nodes T') = length (nodes T)"
    and "\<And>a. a \<in> set (addrs t) \<Longrightarrow> nodes T' ! a = nodes T ! a"
  shows "rep T' par p t"
  using assms by (induction t arbitrary: par p) auto

text \<open>The same when the parent link of the subtree's root has been redirected.\<close>

lemma rep_reparent:
  assumes "rep T par p t" and "distinct (addrs t)"
    and "length (nodes T') = length (nodes T)"
    and "\<And>a. a \<in> set (addrs t) \<Longrightarrow> Some a \<noteq> p \<Longrightarrow> nodes T' ! a = nodes T ! a"
    and "\<And>a. p = Some a \<Longrightarrow> nodes T' ! a = (nodes T ! a)\<lparr>parent := par'\<rparr>"
  shows "rep T' par' p t"
proof (cases t)
  case Leaf
  with assms show ?thesis by simp
next
  case (Node l a c k r)
  with assms(1) have p: "p = Some a" by simp
  from assms(2) Node have "a \<notin> set (addrs l)" "a \<notin> set (addrs r)" by auto
  then have "rep T' (Some a) (left (nodes T ! a)) l" "rep T' (Some a) (right (nodes T ! a)) r"
    using assms(1,3,4) Node p by (auto intro!: rep_frame[where T=T])
  with assms(1,3) assms(5)[OF p] Node show ?thesis by simp
qed

lemma rep_parent_in:
  assumes "rep T par p t" and "g \<in> set (addrs t)"
  shows "(p = Some g \<and> parent (nodes T ! g) = par) \<or>
         (p \<noteq> Some g \<and> (\<exists>b \<in> set (addrs t). parent (nodes T ! g) = Some b \<and>
            (left (nodes T ! b) = Some g \<or> right (nodes T ! b) = Some g)))"
  using assms
proof (induction t arbitrary: par p)
  case Leaf
  then show ?case by simp
next
  case (Node l a c k r)
  from Node.prems(1) have rl: "rep T (Some a) (left (nodes T ! a)) l"
    and rr: "rep T (Some a) (right (nodes T ! a)) r" and p: "p = Some a"
    and pa: "parent (nodes T ! a) = par" by auto
  show ?case
  proof (cases "a = g")
    case True
    with p pa show ?thesis by simp
  next
    case False
    with Node.prems(2) consider "g \<in> set (addrs l)" | "g \<in> set (addrs r)" by auto
    then show ?thesis
    proof cases
      case 1
      from Node.IH(1)[OF rl 1] False p show ?thesis by auto
    next
      case 2
      from Node.IH(2)[OF rr 2] False p show ?thesis by auto
    qed
  qed
qed

lemma rep_replace:
  assumes "rep T par p t" and "distinct (addrs t)" and "g \<in> set (addrs t)"
    and len: "length (nodes T') = length (nodes T)"
    and frame: "\<And>a. a \<in> set (addrs t) \<Longrightarrow> a \<notin> set (addrs (sub g t)) \<Longrightarrow>
                  parent (nodes T ! g) \<noteq> Some a \<Longrightarrow> nodes T' ! a = nodes T ! a"
    and pframe: "\<And>a. parent (nodes T ! g) = Some a \<Longrightarrow> a \<in> set (addrs t) \<Longrightarrow>
          parent (nodes T' ! a) = parent (nodes T ! a) \<and>
          color (nodes T' ! a) = color (nodes T ! a) \<and>
          key (nodes T' ! a) = key (nodes T ! a) \<and>
          left (nodes T' ! a) = (if left (nodes T ! a) = Some g then g' else left (nodes T ! a)) \<and>
          right (nodes T' ! a) = (if right (nodes T ! a) = Some g then g' else right (nodes T ! a))"
    and new: "rep T' (parent (nodes T ! g)) g' s'"
  shows "rep T' par (if p = Some g then g' else p) (modify g (\<lambda>_. s') t)"
  using assms(1-3) frame pframe
proof (induction t arbitrary: par p)
  case Leaf
  then show ?case by simp
next
  case (Node l a c k r)
  from Node.prems(1) have rl: "rep T (Some a) (left (nodes T ! a)) l"
    and rr: "rep T (Some a) (right (nodes T ! a)) r" and p: "p = Some a"
    and pa: "parent (nodes T ! a) = par" and va: "a < length (nodes T)"
    and ca: "color (nodes T ! a) = c" and ka: "key (nodes T ! a) = k" by auto
  from Node.prems(2) have dl: "distinct (addrs l)" and dr: "distinct (addrs r)"
    and al: "a \<notin> set (addrs l)" and ar: "a \<notin> set (addrs r)"
    and disj: "set (addrs l) \<inter> set (addrs r) = {}" by auto
  show ?case
  proof (cases "a = g")
    case True
    with new pa p show ?thesis by simp
  next
    case False
    have left_root: "left (nodes T ! a) = Some g \<longleftrightarrow> root_addr l = Some g"
      using rep_root_addr[OF rl] by simp
    have right_root: "right (nodes T ! a) = Some g \<longleftrightarrow> root_addr r = Some g"
      using rep_root_addr[OF rr] by simp
    text \<open>the node \<open>a\<close> itself\<close>
    have node_a: "parent (nodes T' ! a) = par \<and> color (nodes T' ! a) = c \<and> key (nodes T' ! a) = k \<and>
          left (nodes T' ! a) = (if left (nodes T ! a) = Some g then g' else left (nodes T ! a)) \<and>
          right (nodes T' ! a) = (if right (nodes T ! a) = Some g then g' else right (nodes T ! a))"
    proof (cases "parent (nodes T ! g) = Some a")
      case True
      from Node.prems(5)[OF True] pa ca ka show ?thesis by simp
    next
      case nopar: False
      have "a \<notin> set (addrs (sub g (Node l a c k r)))"
        using False al ar addrs_sub[of g l] addrs_sub[of g r] by auto
      with Node.prems(4)[of a] nopar have same: "nodes T' ! a = nodes T ! a" by simp
      have "left (nodes T ! a) \<noteq> Some g"
      proof
        assume "left (nodes T ! a) = Some g"
        with rl have "parent (nodes T ! g) = Some a" by (cases l) auto
        with nopar show False by simp
      qed
      moreover have "right (nodes T ! a) \<noteq> Some g"
      proof
        assume "right (nodes T ! a) = Some g"
        with rr have "parent (nodes T ! g) = Some a" by (cases r) auto
        with nopar show False by simp
      qed
      ultimately show ?thesis using same pa ca ka by simp
    qed
    from False Node.prems(3) consider (L) "g \<in> set (addrs l)" | (R) "g \<in> set (addrs r)" by auto
    then show ?thesis
    proof cases
      case L
      with disj have gr: "g \<notin> set (addrs r)" by auto
      have subl: "sub g (Node l a c k r) = sub g l" using False L by simp
      have "rep T' (Some a) (if left (nodes T ! a) = Some g then g' else left (nodes T ! a))
              (modify g (\<lambda>_. s') l)"
      proof (rule Node.IH(1)[OF rl dl L])
        fix b assume "b \<in> set (addrs l)" "b \<notin> set (addrs (sub g l))" "parent (nodes T ! g) \<noteq> Some b"
        then show "nodes T' ! b = nodes T ! b"
          using Node.prems(4)[of b] subl by simp
      next
        fix b assume "parent (nodes T ! g) = Some b" "b \<in> set (addrs l)"
        then show "parent (nodes T' ! b) = parent (nodes T ! b) \<and>
          color (nodes T' ! b) = color (nodes T ! b) \<and>
          key (nodes T' ! b) = key (nodes T ! b) \<and>
          left (nodes T' ! b) = (if left (nodes T ! b) = Some g then g' else left (nodes T ! b)) \<and>
          right (nodes T' ! b) = (if right (nodes T ! b) = Some g then g' else right (nodes T ! b))"
          using Node.prems(5)[of b] by simp
      qed
      moreover have "rep T' (Some a) (right (nodes T ! a)) r"
      proof (rule rep_frame[OF rr len])
        fix b assume b: "b \<in> set (addrs r)"
        with disj addrs_sub[of g l] have "b \<notin> set (addrs (sub g l))" by auto
        moreover have "parent (nodes T ! g) \<noteq> Some b"
        proof
          assume pb: "parent (nodes T ! g) = Some b"
          from rep_parent_in[OF rl L] pb b disj ar show False by auto
        qed
        ultimately show "nodes T' ! b = nodes T ! b"
          using Node.prems(4)[of b] b subl by simp
      qed
      moreover have "right (nodes T ! a) \<noteq> Some g"
        using right_root gr root_addr_in by auto
      ultimately show ?thesis
        using node_a p False gr va len by simp
    next
      case R
      with disj have gl: "g \<notin> set (addrs l)" by auto
      have subr: "sub g (Node l a c k r) = sub g r" using False gl by simp
      have "rep T' (Some a) (if right (nodes T ! a) = Some g then g' else right (nodes T ! a))
              (modify g (\<lambda>_. s') r)"
      proof (rule Node.IH(2)[OF rr dr R])
        fix b assume "b \<in> set (addrs r)" "b \<notin> set (addrs (sub g r))" "parent (nodes T ! g) \<noteq> Some b"
        then show "nodes T' ! b = nodes T ! b"
          using Node.prems(4)[of b] subr by simp
      next
        fix b assume "parent (nodes T ! g) = Some b" "b \<in> set (addrs r)"
        then show "parent (nodes T' ! b) = parent (nodes T ! b) \<and>
          color (nodes T' ! b) = color (nodes T ! b) \<and>
          key (nodes T' ! b) = key (nodes T ! b) \<and>
          left (nodes T' ! b) = (if left (nodes T ! b) = Some g then g' else left (nodes T ! b)) \<and>
          right (nodes T' ! b) = (if right (nodes T ! b) = Some g then g' else right (nodes T ! b))"
          using Node.prems(5)[of b] by simp
      qed
      moreover have "rep T' (Some a) (left (nodes T ! a)) l"
      proof (rule rep_frame[OF rl len])
        fix b assume b: "b \<in> set (addrs l)"
        with disj addrs_sub[of g r] have "b \<notin> set (addrs (sub g r))" by auto
        moreover have "parent (nodes T ! g) \<noteq> Some b"
        proof
          assume pb: "parent (nodes T ! g) = Some b"
          from rep_parent_in[OF rr R] pb b disj al show False by auto
        qed
        ultimately show "nodes T' ! b = nodes T ! b"
          using Node.prems(4)[of b] b subr by simp
      qed
      moreover have "left (nodes T ! a) \<noteq> Some g"
        using left_root gl root_addr_in by auto
      ultimately show ?thesis
        using node_a p False gl va len by simp
    qed
  qed
qed

lemma rotate_nodes:
  assumes p: "p < length (nodes T)"
    and s: "child (nodes T ! p) (other d) = Some s" "s < length (nodes T)" "s \<noteq> p"
    and c: "child (nodes T ! s) d = c" "c \<noteq> Some p" "c \<noteq> Some s"
           "\<And>cc. c = Some cc \<Longrightarrow> cc < length (nodes T)"
    and g: "parent (nodes T ! p) = g" "g \<noteq> Some p" "g \<noteq> Some s" "g = None \<or> g \<noteq> c"
           "\<And>gg. g = Some gg \<Longrightarrow> gg < length (nodes T)"
  shows "\<exists>T'. rotate ra T (Some p) d = Inr T' \<and>
           length (nodes T') = length (nodes T) \<and>
           root T' = (if g = None \<and> ra then Some s else root T) \<and>
           nodes T' ! p = (set_child (other d) c (nodes T ! p))\<lparr>parent := Some s\<rparr> \<and>
           nodes T' ! s = (set_child d (Some p) (nodes T ! s))\<lparr>parent := g\<rparr> \<and>
           (\<forall>cc. c = Some cc \<longrightarrow> nodes T' ! cc = (nodes T ! cc)\<lparr>parent := Some p\<rparr>) \<and>
           (\<forall>gg. g = Some gg \<longrightarrow> nodes T' ! gg =
              set_child (if right (nodes T ! gg) = Some p then RIGHT else LEFT) (Some s) (nodes T ! gg)) \<and>
           (\<forall>a. a \<noteq> p \<longrightarrow> a \<noteq> s \<longrightarrow> Some a \<noteq> c \<longrightarrow> Some a \<noteq> g \<longrightarrow> nodes T' ! a = nodes T ! a)"
proof (cases c)
  case cN: None
  show ?thesis
  proof (cases g)
    case None
    with cN assms show ?thesis
      by (cases d) (simp_all add: rotate_def Let_def)
  next
    case (Some gg)
    with cN assms have "gg < length (nodes T)" "gg \<noteq> p" "gg \<noteq> s" by auto
    with Some cN assms show ?thesis
      by (cases d) (simp_all add: rotate_def Let_def)
  qed
next
  case cS: (Some cc)
  with assms have cc: "cc < length (nodes T)" "cc \<noteq> p" "cc \<noteq> s" by auto
  show ?thesis
  proof (cases g)
    case None
    with cS cc assms show ?thesis
      by (cases d) (simp_all add: rotate_def Let_def)
  next
    case (Some gg)
    with cS assms have "gg < length (nodes T)" "gg \<noteq> p" "gg \<noteq> s" "gg \<noteq> cc" by auto
    with Some cS cc assms show ?thesis
      by (cases d) (simp_all add: rotate_def Let_def)
  qed
qed

lemma rep_sub:
  assumes "rep T par p t" and "g \<in> set (addrs t)"
  shows "rep T (parent (nodes T ! g)) (Some g) (sub g t)"
  using assms by (induction t arbitrary: par p) auto

lemma distinct_sub: "distinct (addrs t) \<Longrightarrow> distinct (addrs (sub g t))"
  by (induction t) auto

lemma parent_notin_sub:
  assumes "rep T par p t" and "distinct (addrs t)" and "g \<in> set (addrs t)"
    and "\<And>b. par = Some b \<Longrightarrow> b \<notin> set (addrs t)"
    and "parent (nodes T ! g) = Some b"
  shows "b \<notin> set (addrs (sub g t))"
  using assms
proof (induction t arbitrary: par p)
  case Leaf
  then show ?case by simp
next
  case (Node l a c k r)
  show ?case
  proof (cases "a = g")
    case True
    with Node.prems show ?thesis by auto
  next
    case False
    from Node.prems(1) have rl: "rep T (Some a) (left (nodes T ! a)) l"
      and rr: "rep T (Some a) (right (nodes T ! a)) r" by auto
    show ?thesis
    proof (cases "g \<in> set (addrs l)")
      case True
      from Node.IH(1)[OF rl _ True _ Node.prems(5)] Node.prems(2) True False
      show ?thesis by auto
    next
      case nl: False
      with False Node.prems(3) have gr: "g \<in> set (addrs r)" by auto
      from Node.IH(2)[OF rr _ gr _ Node.prems(5)] Node.prems(2) nl False
      show ?thesis by auto
    qed
  qed
qed

lemma children_differ:
  assumes "rep T par p t" and "distinct (addrs t)" and "a \<in> set (addrs t)"
    and "left (nodes T ! a) = Some x"
  shows "right (nodes T ! a) \<noteq> Some x"
proof
  assume r: "right (nodes T ! a) = Some x"
  from sub_in[OF assms(3)] obtain l c k r' where s: "sub a t = Node l a c k r'"
    by (cases "sub a t") auto
  from rep_sub[OF assms(1,3)] s assms(4) r
  have "rep T (Some a) (Some x) l" "rep T (Some a) (Some x) r'" by auto
  then have "x \<in> set (addrs l)" "x \<in> set (addrs r')"
    by (auto dest!: rep_root_addr root_addr_in)
  moreover from distinct_sub[OF assms(2), of a] s have "set (addrs l) \<inter> set (addrs r') = {}"
    by auto
  ultimately show False by auto
qed

lemma modify_const:
  "distinct (addrs t) \<Longrightarrow> modify g f t = modify g (\<lambda>_. f (sub g t)) t"
proof (induction t)
  case Leaf
  then show ?case by simp
next
  case (Node l a c k r)
  show ?case
  proof (cases "a = g")
    case True
    then show ?thesis by simp
  next
    case False
    show ?thesis
    proof (cases "g \<in> set (addrs l)")
      case True
      with Node.prems have "g \<notin> set (addrs r)" by auto
      with Node True False show ?thesis by simp
    next
      case nl: False
      with Node False show ?thesis by simp
    qed
  qed
qed

lemma rep_Some_Node:
  assumes "rep T par (Some a) t"
  obtains l c k r where "t = Node l a c k r"
  using assms by (cases t) auto

lemma rotate_rep_LEFT:
  assumes rep: "rep T None (root T) t" and dist: "distinct (addrs t)" and pin: "p \<in> set (addrs t)"
    and piv: "right (nodes T ! p) \<noteq> None"
    and ra: "ra \<or> parent (nodes T ! p) \<noteq> None"
  shows "\<exists>T'. rotate ra T (Some p) LEFT = Inr T' \<and> length (nodes T') = length (nodes T) \<and>
           rep T' None (root T') (modify p (rot LEFT) t)"
proof -
  from piv obtain s where s: "right (nodes T ! p) = Some s" by auto
  define g where "g = parent (nodes T ! p)"
  define c where "c = left (nodes T ! s)"
  from rep_sub[OF rep pin] have rsub: "rep T g (Some p) (sub p t)" by (simp add: g_def)
  then obtain A cp kp R where sp: "sub p t = Node A p cp kp R" by (rule rep_Some_Node)
  from rsub sp s have rA: "rep T (Some p) (left (nodes T ! p)) A" and rR: "rep T (Some p) (Some s) R"
    and cp: "color (nodes T ! p) = cp" and kp: "key (nodes T ! p) = kp" by auto
  from rR obtain B cs ks C where R: "R = Node B s cs ks C" by (rule rep_Some_Node)
  from rR R have rB: "rep T (Some s) c B" and rC: "rep T (Some s) (right (nodes T ! s)) C"
    and cs: "color (nodes T ! s) = cs" and ks: "key (nodes T ! s) = ks"
    and vs: "s < length (nodes T)" by (auto simp: c_def)
  from distinct_sub[OF dist, of p] sp R
  have d: "distinct (addrs A)" "distinct (addrs B)" "distinct (addrs C)"
    "p \<notin> set (addrs A)" "p \<notin> set (addrs B)" "p \<notin> set (addrs C)" "s \<noteq> p"
    "s \<notin> set (addrs A)" "s \<notin> set (addrs B)" "s \<notin> set (addrs C)"
    "set (addrs A) \<inter> set (addrs B) = {}" "set (addrs A) \<inter> set (addrs C) = {}"
    "set (addrs B) \<inter> set (addrs C) = {}"
    by auto
  have vp: "p < length (nodes T)" using rep_valid[OF rep pin] .
  have cB: "\<And>cc. c = Some cc \<Longrightarrow> cc \<in> set (addrs B)"
    using rep_root_addr[OF rB] root_addr_in by auto
  have gsub: "\<And>gg. g = Some gg \<Longrightarrow> gg \<notin> set (addrs (sub p t))"
    using parent_notin_sub[OF rep dist pin] by (simp add: g_def)
  have gin: "\<And>gg. g = Some gg \<Longrightarrow> gg \<in> set (addrs t)"
    using rep_parent_in[OF rep pin] by (auto simp: g_def)
  have asub: "set (addrs (sub p t)) = set (addrs A) \<union> {p} \<union> set (addrs B) \<union> {s} \<union> set (addrs C)"
    by (auto simp: sp R)
  have "\<exists>T'. rotate ra T (Some p) LEFT = Inr T' \<and>
           length (nodes T') = length (nodes T) \<and>
           root T' = (if g = None \<and> ra then Some s else root T) \<and>
           nodes T' ! p = (set_child (other LEFT) c (nodes T ! p))\<lparr>parent := Some s\<rparr> \<and>
           nodes T' ! s = (set_child LEFT (Some p) (nodes T ! s))\<lparr>parent := g\<rparr> \<and>
           (\<forall>cc. c = Some cc \<longrightarrow> nodes T' ! cc = (nodes T ! cc)\<lparr>parent := Some p\<rparr>) \<and>
           (\<forall>gg. g = Some gg \<longrightarrow> nodes T' ! gg =
              set_child (if right (nodes T ! gg) = Some p then RIGHT else LEFT) (Some s) (nodes T ! gg)) \<and>
           (\<forall>a. a \<noteq> p \<longrightarrow> a \<noteq> s \<longrightarrow> Some a \<noteq> c \<longrightarrow> Some a \<noteq> g \<longrightarrow> nodes T' ! a = nodes T ! a)"
  proof (rule rotate_nodes)
    show "p < length (nodes T)" by (rule vp)
    show "child (nodes T ! p) (other LEFT) = Some s" using s by simp
    show "s < length (nodes T)" by (rule vs)
    show "s \<noteq> p" using d by simp
    show "child (nodes T ! s) LEFT = c" by (simp add: c_def)
    show "c \<noteq> Some p" using cB d by auto
    show "c \<noteq> Some s" using cB d by auto
    show "\<And>cc. c = Some cc \<Longrightarrow> cc < length (nodes T)"
      using cB rep_valid[OF rB] by auto
    show "parent (nodes T ! p) = g" by (simp add: g_def)
    show "g \<noteq> Some p" using gsub asub by auto
    show "g \<noteq> Some s" using gsub asub by auto
    show "g = None \<or> g \<noteq> c" using gsub cB asub by (cases g) auto
    show "\<And>gg. g = Some gg \<Longrightarrow> gg < length (nodes T)"
      using gin rep_valid[OF rep] by auto
  qed
  then obtain T' where rot: "rotate ra T (Some p) LEFT = Inr T'"
    and len: "length (nodes T') = length (nodes T)"
    and rt: "root T' = (if g = None \<and> ra then Some s else root T)"
    and np: "nodes T' ! p = (nodes T ! p)\<lparr>right := c, parent := Some s\<rparr>"
    and ns: "nodes T' ! s = (nodes T ! s)\<lparr>left := Some p, parent := g\<rparr>"
    and nc: "\<And>cc. c = Some cc \<Longrightarrow> nodes T' ! cc = (nodes T ! cc)\<lparr>parent := Some p\<rparr>"
    and ng: "\<And>gg. g = Some gg \<Longrightarrow> nodes T' ! gg =
              set_child (if right (nodes T ! gg) = Some p then RIGHT else LEFT) (Some s) (nodes T ! gg)"
    and no: "\<And>a. a \<noteq> p \<Longrightarrow> a \<noteq> s \<Longrightarrow> Some a \<noteq> c \<Longrightarrow> Some a \<noteq> g \<Longrightarrow> nodes T' ! a = nodes T ! a"
    by auto
  have fA: "rep T' (Some p) (left (nodes T ! p)) A"
  proof (rule rep_frame[OF rA len])
    fix a assume "a \<in> set (addrs A)"
    with d cB gsub asub show "nodes T' ! a = nodes T ! a" by (intro no) auto
  qed
  have fC: "rep T' (Some s) (right (nodes T ! s)) C"
  proof (rule rep_frame[OF rC len])
    fix a assume "a \<in> set (addrs C)"
    with d cB gsub asub show "nodes T' ! a = nodes T ! a" by (intro no) auto
  qed
  have fB: "rep T' (Some p) c B"
  proof (rule rep_reparent[OF rB d(2) len])
    fix a assume "a \<in> set (addrs B)" "Some a \<noteq> c"
    with d gsub asub show "nodes T' ! a = nodes T ! a" by (intro no) auto
  next
    fix a assume "c = Some a"
    then show "nodes T' ! a = (nodes T ! a)\<lparr>parent := Some p\<rparr>" by (rule nc)
  qed
  have new: "rep T' (parent (nodes T ! p)) (Some s) (Node (Node A p cp kp B) s cs ks C)"
    using fA fB fC np ns vs vp len cp kp cs ks by (simp add: g_def)
  have "rep T' None (if root T = Some p then Some s else root T)
          (modify p (\<lambda>_. Node (Node A p cp kp B) s cs ks C) t)"
  proof (rule rep_replace[OF rep dist pin len _ _ new])
    fix a assume "a \<in> set (addrs t)" "a \<notin> set (addrs (sub p t))" "parent (nodes T ! p) \<noteq> Some a"
    with cB asub show "nodes T' ! a = nodes T ! a" by (intro no) (auto simp: g_def)
  next
    fix a assume pa: "parent (nodes T ! p) = Some a" and ain: "a \<in> set (addrs t)"
    then have ga: "g = Some a" by (simp add: g_def)
    from rep_parent_in[OF rep pin] pa
    have ch: "left (nodes T ! a) = Some p \<or> right (nodes T ! a) = Some p" by auto
    have ex: "left (nodes T ! a) = Some p \<Longrightarrow> right (nodes T ! a) \<noteq> Some p"
      using children_differ[OF rep dist ain] by simp
    show "parent (nodes T' ! a) = parent (nodes T ! a) \<and>
          color (nodes T' ! a) = color (nodes T ! a) \<and>
          key (nodes T' ! a) = key (nodes T ! a) \<and>
          left (nodes T' ! a) = (if left (nodes T ! a) = Some p then Some s else left (nodes T ! a)) \<and>
          right (nodes T' ! a) = (if right (nodes T ! a) = Some p then Some s else right (nodes T ! a))"
      using ng[OF ga] ch ex by auto
  qed
  moreover have "modify p (\<lambda>_. Node (Node A p cp kp B) s cs ks C) t = modify p (rot LEFT) t"
    using modify_const[OF dist, of p "rot LEFT"] by (simp add: sp R)
  moreover have "root T' = (if root T = Some p then Some s else root T)"
  proof (cases "root T = Some p")
    case True
    with rep_parent_in[OF rep pin] have "g = None" by (simp add: g_def)
    with ra True rt show ?thesis by (simp add: g_def)
  next
    case False
    with rep_parent_in[OF rep pin] have "g \<noteq> None" by (auto simp: g_def)
    with False rt show ?thesis by simp
  qed
  ultimately show ?thesis using rot len by auto
qed

lemma rotate_rep_RIGHT:
  assumes rep: "rep T None (root T) t" and dist: "distinct (addrs t)" and pin: "p \<in> set (addrs t)"
    and piv: "left (nodes T ! p) \<noteq> None"
    and ra: "ra \<or> parent (nodes T ! p) \<noteq> None"
  shows "\<exists>T'. rotate ra T (Some p) RIGHT = Inr T' \<and> length (nodes T') = length (nodes T) \<and>
           rep T' None (root T') (modify p (rot RIGHT) t)"
proof -
  from piv obtain s where s: "left (nodes T ! p) = Some s" by auto
  define g where "g = parent (nodes T ! p)"
  define c where "c = right (nodes T ! s)"
  from rep_sub[OF rep pin] have rsub: "rep T g (Some p) (sub p t)" by (simp add: g_def)
  then obtain R cp kp C where sp: "sub p t = Node R p cp kp C" by (rule rep_Some_Node)
  from rsub sp s have rC: "rep T (Some p) (right (nodes T ! p)) C" and rR: "rep T (Some p) (Some s) R"
    and cp: "color (nodes T ! p) = cp" and kp: "key (nodes T ! p) = kp" by auto
  from rR obtain A cs ks B where R: "R = Node A s cs ks B" by (rule rep_Some_Node)
  from rR R have rA: "rep T (Some s) (left (nodes T ! s)) A" and rB: "rep T (Some s) c B"
    and cs: "color (nodes T ! s) = cs" and ks: "key (nodes T ! s) = ks"
    and vs: "s < length (nodes T)" by (auto simp: c_def)
  from distinct_sub[OF dist, of p] sp R
  have d: "distinct (addrs A)" "distinct (addrs B)" "distinct (addrs C)"
    "p \<notin> set (addrs A)" "p \<notin> set (addrs B)" "p \<notin> set (addrs C)" "s \<noteq> p"
    "s \<notin> set (addrs A)" "s \<notin> set (addrs B)" "s \<notin> set (addrs C)"
    "set (addrs A) \<inter> set (addrs B) = {}" "set (addrs A) \<inter> set (addrs C) = {}"
    "set (addrs B) \<inter> set (addrs C) = {}"
    by auto
  have vp: "p < length (nodes T)" using rep_valid[OF rep pin] .
  have cB: "\<And>cc. c = Some cc \<Longrightarrow> cc \<in> set (addrs B)"
    using rep_root_addr[OF rB] root_addr_in by auto
  have gsub: "\<And>gg. g = Some gg \<Longrightarrow> gg \<notin> set (addrs (sub p t))"
    using parent_notin_sub[OF rep dist pin] by (simp add: g_def)
  have gin: "\<And>gg. g = Some gg \<Longrightarrow> gg \<in> set (addrs t)"
    using rep_parent_in[OF rep pin] by (auto simp: g_def)
  have asub: "set (addrs (sub p t)) = set (addrs A) \<union> {p} \<union> set (addrs B) \<union> {s} \<union> set (addrs C)"
    by (auto simp: sp R)
  have "\<exists>T'. rotate ra T (Some p) RIGHT = Inr T' \<and>
           length (nodes T') = length (nodes T) \<and>
           root T' = (if g = None \<and> ra then Some s else root T) \<and>
           nodes T' ! p = (set_child (other RIGHT) c (nodes T ! p))\<lparr>parent := Some s\<rparr> \<and>
           nodes T' ! s = (set_child RIGHT (Some p) (nodes T ! s))\<lparr>parent := g\<rparr> \<and>
           (\<forall>cc. c = Some cc \<longrightarrow> nodes T' ! cc = (nodes T ! cc)\<lparr>parent := Some p\<rparr>) \<and>
           (\<forall>gg. g = Some gg \<longrightarrow> nodes T' ! gg =
              set_child (if right (nodes T ! gg) = Some p then RIGHT else LEFT) (Some s) (nodes T ! gg)) \<and>
           (\<forall>a. a \<noteq> p \<longrightarrow> a \<noteq> s \<longrightarrow> Some a \<noteq> c \<longrightarrow> Some a \<noteq> g \<longrightarrow> nodes T' ! a = nodes T ! a)"
  proof (rule rotate_nodes)
    show "p < length (nodes T)" by (rule vp)
    show "child (nodes T ! p) (other RIGHT) = Some s" using s by simp
    show "s < length (nodes T)" by (rule vs)
    show "s \<noteq> p" using d by simp
    show "child (nodes T ! s) RIGHT = c" by (simp add: c_def)
    show "c \<noteq> Some p" using cB d by auto
    show "c \<noteq> Some s" using cB d by auto
    show "\<And>cc. c = Some cc \<Longrightarrow> cc < length (nodes T)"
      using cB rep_valid[OF rB] by auto
    show "parent (nodes T ! p) = g" by (simp add: g_def)
    show "g \<noteq> Some p" using gsub asub by auto
    show "g \<noteq> Some s" using gsub asub by auto
    show "g = None \<or> g \<noteq> c" using gsub cB asub by (cases g) auto
    show "\<And>gg. g = Some gg \<Longrightarrow> gg < length (nodes T)"
      using gin rep_valid[OF rep] by auto
  qed
  then obtain T' where rot: "rotate ra T (Some p) RIGHT = Inr T'"
    and len: "length (nodes T') = length (nodes T)"
    and rt: "root T' = (if g = None \<and> ra then Some s else root T)"
    and np: "nodes T' ! p = (nodes T ! p)\<lparr>left := c, parent := Some s\<rparr>"
    and ns: "nodes T' ! s = (nodes T ! s)\<lparr>right := Some p, parent := g\<rparr>"
    and nc: "\<And>cc. c = Some cc \<Longrightarrow> nodes T' ! cc = (nodes T ! cc)\<lparr>parent := Some p\<rparr>"
    and ng: "\<And>gg. g = Some gg \<Longrightarrow> nodes T' ! gg =
              set_child (if right (nodes T ! gg) = Some p then RIGHT else LEFT) (Some s) (nodes T ! gg)"
    and no: "\<And>a. a \<noteq> p \<Longrightarrow> a \<noteq> s \<Longrightarrow> Some a \<noteq> c \<Longrightarrow> Some a \<noteq> g \<Longrightarrow> nodes T' ! a = nodes T ! a"
    by auto
  have fC: "rep T' (Some p) (right (nodes T ! p)) C"
  proof (rule rep_frame[OF rC len])
    fix a assume "a \<in> set (addrs C)"
    with d cB gsub asub show "nodes T' ! a = nodes T ! a" by (intro no) auto
  qed
  have fA: "rep T' (Some s) (left (nodes T ! s)) A"
  proof (rule rep_frame[OF rA len])
    fix a assume "a \<in> set (addrs A)"
    with d cB gsub asub show "nodes T' ! a = nodes T ! a" by (intro no) auto
  qed
  have fB: "rep T' (Some p) c B"
  proof (rule rep_reparent[OF rB d(2) len])
    fix a assume "a \<in> set (addrs B)" "Some a \<noteq> c"
    with d gsub asub show "nodes T' ! a = nodes T ! a" by (intro no) auto
  next
    fix a assume "c = Some a"
    then show "nodes T' ! a = (nodes T ! a)\<lparr>parent := Some p\<rparr>" by (rule nc)
  qed
  have new: "rep T' (parent (nodes T ! p)) (Some s) (Node A s cs ks (Node B p cp kp C))"
    using fA fB fC np ns vs vp len cp kp cs ks by (simp add: g_def)
  have "rep T' None (if root T = Some p then Some s else root T)
          (modify p (\<lambda>_. Node A s cs ks (Node B p cp kp C)) t)"
  proof (rule rep_replace[OF rep dist pin len _ _ new])
    fix a assume "a \<in> set (addrs t)" "a \<notin> set (addrs (sub p t))" "parent (nodes T ! p) \<noteq> Some a"
    with cB asub show "nodes T' ! a = nodes T ! a" by (intro no) (auto simp: g_def)
  next
    fix a assume pa: "parent (nodes T ! p) = Some a" and ain: "a \<in> set (addrs t)"
    then have ga: "g = Some a" by (simp add: g_def)
    from rep_parent_in[OF rep pin] pa
    have ch: "left (nodes T ! a) = Some p \<or> right (nodes T ! a) = Some p" by auto
    have ex: "left (nodes T ! a) = Some p \<Longrightarrow> right (nodes T ! a) \<noteq> Some p"
      using children_differ[OF rep dist ain] by simp
    show "parent (nodes T' ! a) = parent (nodes T ! a) \<and>
          color (nodes T' ! a) = color (nodes T ! a) \<and>
          key (nodes T' ! a) = key (nodes T ! a) \<and>
          left (nodes T' ! a) = (if left (nodes T ! a) = Some p then Some s else left (nodes T ! a)) \<and>
          right (nodes T' ! a) = (if right (nodes T ! a) = Some p then Some s else right (nodes T ! a))"
      using ng[OF ga] ch ex by auto
  qed
  moreover have "modify p (\<lambda>_. Node A s cs ks (Node B p cp kp C)) t = modify p (rot RIGHT) t"
    using modify_const[OF dist, of p "rot RIGHT"] by (simp add: sp R)
  moreover have "root T' = (if root T = Some p then Some s else root T)"
  proof (cases "root T = Some p")
    case True
    with rep_parent_in[OF rep pin] have "g = None" by (simp add: g_def)
    with ra True rt show ?thesis by (simp add: g_def)
  next
    case False
    with rep_parent_in[OF rep pin] have "g \<noteq> None" by (auto simp: g_def)
    with False rt show ?thesis by simp
  qed
  ultimately show ?thesis using rot len by auto
qed

lemma rotate_rep:
  assumes "rep T None (root T) t" and "distinct (addrs t)" and "p \<in> set (addrs t)"
    and "child (nodes T ! p) (other d) \<noteq> None"
    and "ra \<or> parent (nodes T ! p) \<noteq> None"
  shows "\<exists>T'. rotate ra T (Some p) d = Inr T' \<and> length (nodes T') = length (nodes T) \<and>
           rep T' None (root T') (modify p (rot d) t)"
  using assms rotate_rep_LEFT[of T t p ra] rotate_rep_RIGHT[of T t p ra]
  by (cases d) simp_all

lemma paint_rep:
  assumes "rep T par p t" and "a < length (nodes T)"
  shows "rep (T\<lparr>nodes := (nodes T)[a := (nodes T ! a)\<lparr>color := c\<rparr>]\<rparr>) par p (paint a c t)"
  using assms by (induction t arbitrary: par p) (auto simp: nth_list_update)

lemma addrs_rot [simp]: "addrs (rot d t) = addrs t"
  by (induction d t rule: rot.induct) auto

lemma keys_rot [simp]: "keys (rot d t) = keys t"
  by (induction d t rule: rot.induct) auto

lemma root_addr_paint [simp]: "root_addr (paint a c t) = root_addr t"
  by (cases t) auto

lemma sub_notin: "g \<notin> set (addrs t) \<Longrightarrow> sub g t = Leaf"
  by (induction t) auto

lemma modify_id [simp]: "modify g (\<lambda>s. s) t = t"
  by (induction t) auto

lemma replace_self:
  "distinct (addrs t) \<Longrightarrow> modify g (\<lambda>_. sub g t) t = t"
  using modify_const[of t g "\<lambda>s. s"] by simp

lemma paint_replace:
  assumes "distinct (addrs t)" and "a \<in> set (addrs (sub g t))"
  shows "paint a c (modify g (\<lambda>_. s) t) = modify g (\<lambda>_. paint a c s) t"
  using assms
proof (induction t)
  case Leaf
  then show ?case by simp
next
  case (Node l b cb k r)
  show ?case
  proof (cases "b = g")
    case True
    then show ?thesis by simp
  next
    case False
    show ?thesis
    proof (cases "g \<in> set (addrs l)")
      case True
      with Node.prems False have a: "a \<in> set (addrs (sub g l))" by simp
      with addrs_sub[of g l] have al: "a \<in> set (addrs l)" by auto
      with Node.prems(1) have "a \<noteq> b" "a \<notin> set (addrs r)" "g \<notin> set (addrs r)"
        using True by auto
      with Node.IH(1)[OF _ a] Node.prems(1) False show ?thesis by simp
    next
      case nl: False
      with Node.prems False have a: "a \<in> set (addrs (sub g r))" by simp
      with addrs_sub[of g r] have ar: "a \<in> set (addrs r)" by auto
      with Node.prems(1) have "a \<noteq> b" "a \<notin> set (addrs l)" by auto
      with Node.IH(2)[OF _ a] Node.prems(1) False nl show ?thesis by simp
    qed
  qed
qed

lemma modify_replace:
  assumes "distinct (addrs t)" and "p \<in> set (addrs (sub g t))"
  shows "modify p f (modify g (\<lambda>_. s) t) = modify g (\<lambda>_. modify p f s) t"
  using assms
proof (induction t)
  case Leaf
  then show ?case by simp
next
  case (Node l b cb k r)
  show ?case
  proof (cases "b = g")
    case True
    then show ?thesis by simp
  next
    case False
    show ?thesis
    proof (cases "g \<in> set (addrs l)")
      case True
      with Node.prems False have a: "p \<in> set (addrs (sub g l))" by simp
      with addrs_sub[of g l] have al: "p \<in> set (addrs l)" by auto
      with Node.prems(1) have "p \<noteq> b" "p \<notin> set (addrs r)" "g \<notin> set (addrs r)"
        using True by auto
      with Node.IH(1)[OF _ a] Node.prems(1) False show ?thesis by simp
    next
      case nl: False
      with Node.prems False have a: "p \<in> set (addrs (sub g r))" by simp
      with addrs_sub[of g r] have ar: "p \<in> set (addrs r)" by auto
      with Node.prems(1) have "p \<noteq> b" "p \<notin> set (addrs l)" by auto
      with Node.IH(2)[OF _ a] Node.prems(1) False nl show ?thesis by simp
    qed
  qed
qed

lemma addrs_replace:
  assumes "distinct (addrs t)" and "addrs s = addrs (sub g t)" and "g \<in> set (addrs t)"
  shows "addrs (modify g (\<lambda>_. s) t) = addrs t"
  using assms
proof (induction t)
  case Leaf
  then show ?case by simp
next
  case (Node l b cb k r)
  show ?case
  proof (cases "b = g")
    case True
    with Node.prems show ?thesis by simp
  next
    case False
    show ?thesis
    proof (cases "g \<in> set (addrs l)")
      case True
      with Node.prems have "g \<notin> set (addrs r)" by auto
      with Node True False show ?thesis by simp
    next
      case nl: False
      with Node False show ?thesis by simp
    qed
  qed
qed

lemma keys_replace:
  assumes "distinct (addrs t)" and "keys s = keys (sub g t)" and "g \<in> set (addrs t)"
  shows "keys (modify g (\<lambda>_. s) t) = keys t"
  using assms
proof (induction t)
  case Leaf
  then show ?case by simp
next
  case (Node l b cb k r)
  show ?case
  proof (cases "b = g")
    case True
    with Node.prems show ?thesis by simp
  next
    case False
    show ?thesis
    proof (cases "g \<in> set (addrs l)")
      case True
      with Node.prems have "g \<notin> set (addrs r)" by auto
      with Node True False show ?thesis by simp
    next
      case nl: False
      with Node False show ?thesis by simp
    qed
  qed
qed

lemma bheight_replace:
  assumes "distinct (addrs t)" and "bheight s = bheight (sub g t)" and "g \<in> set (addrs t)"
  shows "bheight (modify g (\<lambda>_. s) t) = bheight t"
  using assms
proof (induction t)
  case Leaf
  then show ?case by simp
next
  case (Node l b cb k r)
  show ?case
  proof (cases "b = g")
    case True
    with Node.prems show ?thesis by simp
  next
    case False
    show ?thesis
    proof (cases "g \<in> set (addrs l)")
      case True
      with Node False show ?thesis by simp
    next
      case nl: False
      with Node False show ?thesis by simp
    qed
  qed
qed

lemma balanced_replace:
  assumes "distinct (addrs t)" and "balanced t" and "g \<in> set (addrs t)"
    and "bheight s = bheight (sub g t)" and "balanced s"
  shows "balanced (modify g (\<lambda>_. s) t)"
  using assms
proof (induction t)
  case Leaf
  then show ?case by simp
next
  case (Node l b cb k r)
  show ?case
  proof (cases "b = g")
    case True
    with Node.prems show ?thesis by simp
  next
    case False
    show ?thesis
    proof (cases "g \<in> set (addrs l)")
      case True
      with Node.prems have gr: "g \<notin> set (addrs r)" by auto
      from Node.prems True False have "bheight (modify g (\<lambda>_. s) l) = bheight l"
        by (intro bheight_replace) auto
      with Node True False gr show ?thesis by simp
    next
      case nl: False
      with Node.prems False have gr: "g \<in> set (addrs r)" by auto
      from Node.prems nl False gr have "bheight (modify g (\<lambda>_. s) r) = bheight r"
        by (intro bheight_replace) auto
      with Node nl False gr show ?thesis by simp
    qed
  qed
qed

lemma balanced_sub: "balanced t \<Longrightarrow> balanced (sub g t)"
  by (induction t) auto

lemma rrx_no_red_red: "no_red_red t \<Longrightarrow> rrx x t"
  by (induction t) auto

lemma no_red_red_rrx_notin: "rrx x t \<Longrightarrow> x \<notin> set (addrs t) \<Longrightarrow> no_red_red t"
  by (induction t) (auto dest: root_addr_in)

lemma no_red_red_rrx_root:
  "rrx x t \<Longrightarrow> distinct (addrs t) \<Longrightarrow> root_addr t = Some x \<Longrightarrow> no_red_red t"
  by (cases t) (auto dest: root_addr_in intro: no_red_red_rrx_notin)

lemma rrx_sub: "rrx x t \<Longrightarrow> rrx x (sub g t)"
  by (induction t) auto

lemma root_addr_modify:
  "root_addr t \<noteq> Some g \<Longrightarrow> root_addr (modify g f t) = root_addr t"
  by (cases t) auto

lemma root_color_modify:
  "root_addr t \<noteq> Some g \<Longrightarrow> root_color (modify g f t) = root_color t"
  by (cases t) auto

lemma root_modify_const:
  "root_addr t = Some g \<Longrightarrow> modify g (\<lambda>_. s) t = s"
  by (cases t) auto

lemma sub_root: "root_addr t = Some g \<Longrightarrow> sub g t = t"
  by (cases t) auto

lemma root_not_in_sub:
  assumes "distinct (addrs t)" and "root_addr t = Some b" and "b \<noteq> g"
  shows "b \<notin> set (addrs (sub g t))"
proof (cases t)
  case Leaf
  with assms show ?thesis by simp
next
  case (Node l a c k r)
  with assms addrs_sub[of g l] addrs_sub[of g r] show ?thesis by auto
qed

lemma rrx_replace:
  assumes "distinct (addrs t)" and "g \<in> set (addrs t)" and "rrx x t"
    and "x \<in> set (addrs (sub g t))"
    and "no_red_red s" and "root_color s = BLACK \<or> root_addr s = Some y"
  shows "rrx y (modify g (\<lambda>_. s) t)"
  using assms(1-4)
proof (induction t)
  case Leaf
  then show ?case by simp
next
  case (Node l b cb k r)
  show ?case
  proof (cases "b = g")
    case True
    with assms(5) show ?thesis by (simp add: rrx_no_red_red)
  next
    case False
    show ?thesis
    proof (cases "g \<in> set (addrs l)")
      case True
      with Node.prems False have xs: "x \<in> set (addrs (sub g l))" by simp
      with addrs_sub[of g l] Node.prems(1) have xr: "x \<notin> set (addrs r)" "g \<notin> set (addrs r)"
        using True by auto
      have r: "no_red_red r" "root_color r = BLACK \<or> cb \<noteq> RED"
        using Node.prems(3) xr by (auto intro: no_red_red_rrx_notin dest: root_addr_in)
      have l: "rrx y (modify g (\<lambda>_. s) l)"
        using Node.IH(1) Node.prems True xs by auto
      have rootl: "cb = RED \<longrightarrow> root_color (modify g (\<lambda>_. s) l) = BLACK \<or>
                     root_addr (modify g (\<lambda>_. s) l) = Some y"
      proof (cases "root_addr l = Some g")
        case True
        with assms(6) show ?thesis by (simp add: root_modify_const)
      next
        case ng: False
        have "root_addr l \<noteq> Some x"
        proof
          assume "root_addr l = Some x"
          with root_not_in_sub[of l x g] Node.prems(1) xs ng show False by auto
        qed
        with Node.prems(3) ng show ?thesis
          by (auto simp: root_color_modify)
      qed
      from l r rootl xr show ?thesis using False by (auto simp: rrx_no_red_red)
    next
      case nl: False
      with Node.prems False have gr: "g \<in> set (addrs r)" by auto
      from Node.prems False nl have xs: "x \<in> set (addrs (sub g r))" by simp
      with addrs_sub[of g r] Node.prems(1) have xl: "x \<notin> set (addrs l)" by auto
      have l: "no_red_red l" "root_color l = BLACK \<or> cb \<noteq> RED"
        using Node.prems(3) xl by (auto intro: no_red_red_rrx_notin dest: root_addr_in)
      have r: "rrx y (modify g (\<lambda>_. s) r)"
        using Node.IH(2) Node.prems gr xs by auto
      have rootr: "cb = RED \<longrightarrow> root_color (modify g (\<lambda>_. s) r) = BLACK \<or>
                     root_addr (modify g (\<lambda>_. s) r) = Some y"
      proof (cases "root_addr r = Some g")
        case True
        with assms(6) show ?thesis by (simp add: root_modify_const)
      next
        case ng: False
        have "root_addr r \<noteq> Some x"
        proof
          assume "root_addr r = Some x"
          with root_not_in_sub[of r x g] Node.prems(1) xs ng show False by auto
        qed
        with Node.prems(3) ng show ?thesis
          by (auto simp: root_color_modify)
      qed
      from l r rootr nl show ?thesis using False by (auto simp: rrx_no_red_red)
    qed
  qed
qed

lemma no_red_red_replace:
  assumes "distinct (addrs t)" and "g \<in> set (addrs t)" and "rrx x t"
    and "x \<in> set (addrs (sub g t))"
    and "no_red_red s" and "root_color s = BLACK" and "addrs s = addrs (sub g t)"
  shows "no_red_red (modify g (\<lambda>_. s) t)"
proof -
  obtain y where y: "y \<notin> set (addrs t)"
    using ex_new_if_finite[OF infinite_UNIV_nat, of "set (addrs t)"] by auto
  from rrx_replace[OF assms(1-5), of y] assms(6)
  have "rrx y (modify g (\<lambda>_. s) t)" by simp
  moreover from y addrs_replace[OF assms(1,7,2)]
  have "y \<notin> set (addrs (modify g (\<lambda>_. s) t))" by simp
  ultimately show ?thesis by (rule no_red_red_rrx_notin)
qed

lemma nrr_child:
  "rrx n t \<Longrightarrow> distinct (addrs t) \<Longrightarrow> root_addr t = Some n \<or> n \<notin> set (addrs t) \<Longrightarrow> no_red_red t"
  by (auto intro: no_red_red_rrx_notin no_red_red_rrx_root)

lemma black_child:
  "root_color t = BLACK \<or> root_addr t = Some n \<Longrightarrow> n \<notin> set (addrs t) \<Longrightarrow> root_color t = BLACK"
  by (auto dest: root_addr_in)

lemma abs_I1:
  assumes s: "s = nodeD d (Node PL p RED kp PR) g cg kg (Node UL u RED ku UR)"
    and dist: "distinct (addrs s)" and rr: "rrx n s"
    and n: "root_addr PL = Some n \<or> root_addr PR = Some n" and bal: "balanced s"
  shows "paint g RED (paint u BLACK (paint p BLACK s)) =
           nodeD d (Node PL p BLACK kp PR) g RED kg (Node UL u BLACK ku UR)"
    and "bheight (nodeD d (Node PL p BLACK kp PR) g RED kg (Node UL u BLACK ku UR)) = bheight s"
    and "balanced (nodeD d (Node PL p BLACK kp PR) g RED kg (Node UL u BLACK ku UR))"
    and "no_red_red (nodeD d (Node PL p BLACK kp PR) g RED kg (Node UL u BLACK ku UR))"
proof -
  from dist s have d: "distinct (addrs PL)" "distinct (addrs PR)" "distinct (addrs UL)" "distinct (addrs UR)"
    "set (addrs PL) \<inter> set (addrs PR) = {}" "p \<notin> set (addrs PL)" "p \<notin> set (addrs PR)"
    "u \<notin> set (addrs UL)" "u \<notin> set (addrs UR)" "p \<noteq> u" "g \<noteq> p" "g \<noteq> u"
    "g \<notin> set (addrs PL)" "g \<notin> set (addrs PR)" "g \<notin> set (addrs UL)" "g \<notin> set (addrs UR)"
    "u \<notin> set (addrs PL)" "u \<notin> set (addrs PR)" "p \<notin> set (addrs UL)" "p \<notin> set (addrs UR)"
    "set (addrs PL) \<inter> set (addrs UL) = {}" "set (addrs PL) \<inter> set (addrs UR) = {}"
    "set (addrs PR) \<inter> set (addrs UL) = {}" "set (addrs PR) \<inter> set (addrs UR) = {}"
    by (cases d; auto simp: nodeD_def)+
  from n d have nin: "n \<in> set (addrs PL) \<union> set (addrs PR)" "n \<noteq> p"
    "n \<notin> set (addrs UL)" "n \<notin> set (addrs UR)"
    "root_addr PL = Some n \<or> n \<notin> set (addrs PL)" "root_addr PR = Some n \<or> n \<notin> set (addrs PR)"
    by (auto dest: root_addr_in)
  from rr s have rrs: "rrx n PL" "rrx n PR" "rrx n UL" "rrx n UR"
    by (cases d; auto simp: nodeD_def)+
  have nr: "no_red_red PL" "no_red_red PR" "no_red_red UL" "no_red_red UR"
    using rrs nin d by (auto intro: nrr_child)
  from rr s nin have cg: "cg = BLACK"
    by (cases d; cases cg; auto simp: nodeD_def)
  show "paint g RED (paint u BLACK (paint p BLACK s)) =
           nodeD d (Node PL p BLACK kp PR) g RED kg (Node UL u BLACK ku UR)"
    using d by (cases d) (simp_all add: s nodeD_def)
  show "bheight (nodeD d (Node PL p BLACK kp PR) g RED kg (Node UL u BLACK ku UR)) = bheight s"
    using cg bal by (cases d) (simp_all add: s nodeD_def)
  show "balanced (nodeD d (Node PL p BLACK kp PR) g RED kg (Node UL u BLACK ku UR))"
    using cg bal by (cases d) (simp_all add: s nodeD_def)
  show "no_red_red (nodeD d (Node PL p BLACK kp PR) g RED kg (Node UL u BLACK ku UR))"
    using nr by (cases d) (simp_all add: nodeD_def)
qed

lemma abs_I5_outer:
  assumes s: "s = nodeD d (nodeD d NS p RED kp B) g cg kg U"
    and n: "root_addr NS = Some n" and u: "root_color U = BLACK"
    and dist: "distinct (addrs s)" and rr: "rrx n s" and bal: "balanced s"
  shows "modify g (rot (other d)) (paint g RED (paint p BLACK s)) =
           nodeD d NS p BLACK kp (nodeD d B g RED kg U)"
    and "bheight (nodeD d NS p BLACK kp (nodeD d B g RED kg U)) = bheight s"
    and "balanced (nodeD d NS p BLACK kp (nodeD d B g RED kg U))"
    and "no_red_red (nodeD d NS p BLACK kp (nodeD d B g RED kg U))"
    and "addrs (nodeD d NS p BLACK kp (nodeD d B g RED kg U)) = addrs s"
    and "keys (nodeD d NS p BLACK kp (nodeD d B g RED kg U)) = keys s"
proof -
  from dist s have d: "distinct (addrs NS)" "distinct (addrs B)" "distinct (addrs U)"
    "g \<noteq> p" "g \<notin> set (addrs NS)" "g \<notin> set (addrs B)" "g \<notin> set (addrs U)"
    "p \<notin> set (addrs NS)" "p \<notin> set (addrs B)" "p \<notin> set (addrs U)"
    "set (addrs NS) \<inter> set (addrs B) = {}" "set (addrs NS) \<inter> set (addrs U) = {}"
    by (cases d; auto simp: nodeD_def)+
  from n d have nin: "n \<in> set (addrs NS)" "n \<noteq> p" "n \<noteq> g" "n \<notin> set (addrs B)" "n \<notin> set (addrs U)"
    by (auto dest: root_addr_in)
  from rr s have rrs: "rrx n NS" "rrx n B" "rrx n U"
    and rb: "root_color B = BLACK \<or> root_addr B = Some n"
    by (cases d; auto simp: nodeD_def)+
  have nr: "no_red_red NS" "no_red_red B" "no_red_red U"
    using rrs nin d n by (auto intro: nrr_child)
  have b: "root_color B = BLACK" using rb nin by (auto intro: black_child)
  from rr s nin have cg: "cg = BLACK"
    by (cases d; cases cg; auto simp: nodeD_def)
  show "modify g (rot (other d)) (paint g RED (paint p BLACK s)) =
           nodeD d NS p BLACK kp (nodeD d B g RED kg U)"
    using d by (cases d) (simp_all add: s nodeD_def)
  show "bheight (nodeD d NS p BLACK kp (nodeD d B g RED kg U)) = bheight s"
    using cg bal by (cases d) (simp_all add: s nodeD_def)
  show "balanced (nodeD d NS p BLACK kp (nodeD d B g RED kg U))"
    using cg bal by (cases d) (auto simp: s nodeD_def)
  show "no_red_red (nodeD d NS p BLACK kp (nodeD d B g RED kg U))"
    using nr b u by (cases d) (simp_all add: nodeD_def)
  show "addrs (nodeD d NS p BLACK kp (nodeD d B g RED kg U)) = addrs s"
    by (cases d) (simp_all add: s nodeD_def)
  show "keys (nodeD d NS p BLACK kp (nodeD d B g RED kg U)) = keys s"
    by (cases d) (simp_all add: s nodeD_def)
qed

lemma abs_I5_inner:
  assumes s: "s = nodeD d (nodeD d A p RED kp (nodeD d B n RED kn C)) g cg kg U"
    and u: "root_color U = BLACK"
    and dist: "distinct (addrs s)" and rr: "rrx n s" and bal: "balanced s"
  shows "modify p (rot d) s = nodeD d (nodeD d (nodeD d A p RED kp B) n RED kn C) g cg kg U"
    and "modify g (rot (other d)) (paint g RED (paint n BLACK (modify p (rot d) s))) =
           nodeD d (nodeD d A p RED kp B) n BLACK kn (nodeD d C g RED kg U)"
    and "bheight (nodeD d (nodeD d A p RED kp B) n BLACK kn (nodeD d C g RED kg U)) = bheight s"
    and "balanced (nodeD d (nodeD d A p RED kp B) n BLACK kn (nodeD d C g RED kg U))"
    and "no_red_red (nodeD d (nodeD d A p RED kp B) n BLACK kn (nodeD d C g RED kg U))"
    and "addrs (nodeD d (nodeD d A p RED kp B) n BLACK kn (nodeD d C g RED kg U)) = addrs s"
    and "keys (nodeD d (nodeD d A p RED kp B) n BLACK kn (nodeD d C g RED kg U)) = keys s"
proof -
  from dist s have d: "distinct (addrs A)" "distinct (addrs B)" "distinct (addrs C)" "distinct (addrs U)"
    "g \<noteq> p" "g \<noteq> n" "p \<noteq> n"
    "g \<notin> set (addrs A)" "g \<notin> set (addrs B)" "g \<notin> set (addrs C)" "g \<notin> set (addrs U)"
    "p \<notin> set (addrs A)" "p \<notin> set (addrs B)" "p \<notin> set (addrs C)" "p \<notin> set (addrs U)"
    "n \<notin> set (addrs A)" "n \<notin> set (addrs B)" "n \<notin> set (addrs C)" "n \<notin> set (addrs U)"
    by (cases d; auto simp: nodeD_def)+
  from rr s have rrs: "rrx n A" "rrx n B" "rrx n C" "rrx n U"
    and rb: "root_color A = BLACK \<or> root_addr A = Some n"
      "root_color B = BLACK \<or> root_addr B = Some n"
      "root_color C = BLACK \<or> root_addr C = Some n"
    by (cases d; auto simp: nodeD_def)+
  have nr: "no_red_red A" "no_red_red B" "no_red_red C" "no_red_red U"
    using rrs d by (auto intro: nrr_child)
  have b: "root_color A = BLACK" "root_color B = BLACK" "root_color C = BLACK"
    using rb d by (auto intro: black_child)
  from rr s d have cg: "cg = BLACK"
    by (cases d; cases cg; auto simp: nodeD_def)
  show 1: "modify p (rot d) s = nodeD d (nodeD d (nodeD d A p RED kp B) n RED kn C) g cg kg U"
    using d by (cases d) (simp_all add: s nodeD_def)
  show "modify g (rot (other d)) (paint g RED (paint n BLACK (modify p (rot d) s))) =
           nodeD d (nodeD d A p RED kp B) n BLACK kn (nodeD d C g RED kg U)"
    unfolding 1 using d by (cases d) (simp_all add: nodeD_def)
  show "bheight (nodeD d (nodeD d A p RED kp B) n BLACK kn (nodeD d C g RED kg U)) = bheight s"
    using cg bal by (cases d) (simp_all add: s nodeD_def)
  show "balanced (nodeD d (nodeD d A p RED kp B) n BLACK kn (nodeD d C g RED kg U))"
    using cg bal by (cases d) (auto simp: s nodeD_def)
  show "no_red_red (nodeD d (nodeD d A p RED kp B) n BLACK kn (nodeD d C g RED kg U))"
    using nr b u by (cases d) (simp_all add: nodeD_def)
  show "addrs (nodeD d (nodeD d A p RED kp B) n BLACK kn (nodeD d C g RED kg U)) = addrs s"
    by (cases d) (simp_all add: s nodeD_def)
  show "keys (nodeD d (nodeD d A p RED kp B) n BLACK kn (nodeD d C g RED kg U)) = keys s"
    by (cases d) (simp_all add: s nodeD_def)
qed

lemma rep_nodeD_iff:
  "rep T par q (nodeD d x a c k y) \<longleftrightarrow>
     (q = Some a \<and> a < length (nodes T) \<and> parent (nodes T ! a) = par \<and>
      color (nodes T ! a) = c \<and> key (nodes T ! a) = k \<and>
      rep T (Some a) (child (nodes T ! a) d) x \<and>
      rep T (Some a) (child (nodes T ! a) (other d)) y)"
  by (cases d) (auto simp: nodeD_def)

lemma rep_as_nodeD:
  assumes "rep T par (Some a) s"
  obtains x y where "s = nodeD d x a (color (nodes T ! a)) (key (nodes T ! a)) y"
    and "rep T (Some a) (child (nodes T ! a) d) x"
    and "rep T (Some a) (child (nodes T ! a) (other d)) y"
proof -
  from assms obtain l c k r where s: "s = Node l a c k r" by (rule rep_Some_Node)
  show ?thesis
  proof (cases d)
    case LEFT
    with assms s that[of l r] show ?thesis by (auto simp: nodeD_def)
  next
    case RIGHT
    with assms s that[of r l] show ?thesis by (auto simp: nodeD_def)
  qed
qed

lemma root_addr_nodeD [simp]: "root_addr (nodeD d x a c k y) = Some a"
  by (cases d) (simp_all add: nodeD_def)

lemma root_color_nodeD [simp]: "root_color (nodeD d x a c k y) = c"
  by (cases d) (simp_all add: nodeD_def)

lemma set_addrs_nodeD [simp]:
  "set (addrs (nodeD d x a c k y)) = insert a (set (addrs x) \<union> set (addrs y))"
  by (cases d) (auto simp: nodeD_def)

lemma in_modify_const:
  "g \<in> set (addrs t) \<Longrightarrow> root_addr s = Some g \<Longrightarrow> g \<in> set (addrs (modify g (\<lambda>_. s) t))"
  by (induction t) (auto dest: root_addr_in)

lemma sub_replace:
  assumes "distinct (addrs t)" and "g \<in> set (addrs t)" and "root_addr s = Some g"
  shows "sub g (modify g (\<lambda>_. s) t) = s"
  using assms(1,2)
proof (induction t)
  case Leaf
  then show ?case by simp
next
  case (Node l b cb k r)
  show ?case
  proof (cases "b = g")
    case True
    with assms(3) show ?thesis by (simp add: sub_root)
  next
    case False
    show ?thesis
    proof (cases "g \<in> set (addrs l)")
      case True
      with Node False in_modify_const[OF True assms(3)] show ?thesis by simp
    next
      case nl: False
      with Node False show ?thesis by simp
    qed
  qed
qed

text \<open>The parent of the current node is black: no red-red pair is left.\<close>

lemma nrr_black_parent:
  assumes "rep T par q t" and "rrx n t" and "parent (nodes T ! n) = Some p"
    and "color (nodes T ! p) = BLACK"
  shows "no_red_red t"
  using assms(1,2)
proof (induction t arbitrary: par q)
  case Leaf
  then show ?case by simp
next
  case (Node l a c k r)
  from Node.prems(1) have rl: "rep T (Some a) (left (nodes T ! a)) l"
    and rr: "rep T (Some a) (right (nodes T ! a)) r" and ca: "color (nodes T ! a) = c" by auto
  have "root_color l = BLACK" if "c = RED"
  proof (rule ccontr)
    assume "root_color l \<noteq> BLACK"
    with Node.prems(2) that have "root_addr l = Some n" by auto
    with rl have "parent (nodes T ! n) = Some a" by (cases l) auto
    with assms(3,4) ca that show False by simp
  qed
  moreover have "root_color r = BLACK" if "c = RED"
  proof (rule ccontr)
    assume "root_color r \<noteq> BLACK"
    with Node.prems(2) that have "root_addr r = Some n" by auto
    with rr have "parent (nodes T ! n) = Some a" by (cases r) auto
    with assms(3,4) ca that show False by simp
  qed
  moreover have "no_red_red l" "no_red_red r"
    using Node.IH(1)[OF rl] Node.IH(2)[OF rr] Node.prems(2) by auto
  ultimately show ?case by simp
qed

text \<open>The parent of the current node is the root: painting it black leaves no red-red pair.\<close>

lemma nrr_paint_root:
  assumes "rep T par q t" and "distinct (addrs t)" and "rrx n t" and "n \<in> set (addrs t)"
    and "parent (nodes T ! n) = Some p" and "root_addr t = Some p"
  shows "no_red_red (paint p BLACK t)"
proof -
  from assms(6) obtain l c k r where t: "t = Node l p c k r" by (cases t) auto
  from assms(1) t have rl: "rep T (Some p) (left (nodes T ! p)) l"
    and rr: "rep T (Some p) (right (nodes T ! p)) r" by auto
  from assms(2) t have d: "p \<notin> set (addrs l)" "p \<notin> set (addrs r)"
    "distinct (addrs l)" "distinct (addrs r)" by auto
  have "root_addr l = Some n \<or> n \<notin> set (addrs l)"
    using rep_parent_in[OF rl, of n] rep_root_addr[OF rl] assms(5) d by auto
  moreover have "root_addr r = Some n \<or> n \<notin> set (addrs r)"
    using rep_parent_in[OF rr, of n] rep_root_addr[OF rr] assms(5) d by auto
  ultimately have "no_red_red l" "no_red_red r"
    using assms(3) t d by (auto intro: nrr_child)
  with d show ?thesis by (simp add: t)
qed

lemma balanced_paint_root:
  assumes "distinct (addrs t)" and "root_addr t = Some p" and "balanced t"
  shows "balanced (paint p c t)"
proof -
  from assms(2) obtain l c' k r where t: "t = Node l p c' k r" by (cases t) auto
  with assms show ?thesis by simp
qed

lemma rep_root_parent:
  assumes "rep T None q t" and "distinct (addrs t)" and "a \<in> set (addrs t)"
  shows "parent (nodes T ! a) = None \<longleftrightarrow> root_addr t = Some a"
  using rep_parent_in[OF assms(1,3)] rep_root_addr[OF assms(1)] by auto

lemma loop_inv_parent:
  assumes "loop_inv T t n p"
  shows "p \<in> set (addrs t)" and "p < length (nodes T)" and "n < length (nodes T)"
    and "left (nodes T ! p) = Some n \<or> right (nodes T ! p) = Some n" and "n \<noteq> p"
proof -
  from assms have rep: "rep T None (root T) t" and nin: "n \<in> set (addrs t)"
    and pn: "parent (nodes T ! n) = Some p" and dist: "distinct (addrs t)"
    by (auto simp: loop_inv_def)
  from rep_parent_in[OF rep nin] pn show pin: "p \<in> set (addrs t)"
    and ch: "left (nodes T ! p) = Some n \<or> right (nodes T ! p) = Some n" by auto
  from rep_valid[OF rep] pin nin show "p < length (nodes T)" "n < length (nodes T)" by auto
  show "n \<noteq> p"
  proof
    assume "n = p"
    with parent_notin_sub[OF rep dist nin _ pn] sub_in[OF nin] root_addr_in
    show False by auto
  qed
qed

lemma step_black:
  assumes "loop_inv T t n p" and "color (nodes T ! p) = BLACK"
  shows "loop_body T (Some p) N = Return (Inr T)" and "good T t t"
proof -
  from loop_inv_parent[OF assms(1)] assms(2)
  show "loop_body T (Some p) N = Return (Inr T)" by (simp add: loop_body_def)
  from assms have "no_red_red t"
    by (auto simp: loop_inv_def intro: nrr_black_parent)
  with assms(1) show "good T t t" by (simp add: good_def loop_inv_def)
qed

lemma step_I6:
  assumes "loop_inv T t n p" and "color (nodes T ! p) = RED" and "parent (nodes T ! p) = None"
  shows "\<exists>T' t'. loop_body T (Some p) N = Return (Inr T') \<and> good T' t t' \<and> keys_same T T'"
proof -
  note par = loop_inv_parent[OF assms(1)]
  from assms(1) have rep: "rep T None (root T) t" and nin: "n \<in> set (addrs t)"
    and pn: "parent (nodes T ! n) = Some p" and dist: "distinct (addrs t)"
    and rr: "rrx n t" and bal: "balanced t"
    by (auto simp: loop_inv_def)
  let ?T' = "T\<lparr>nodes := (nodes T)[p := (nodes T ! p)\<lparr>color := BLACK\<rparr>]\<rparr>"
  have body: "loop_body T (Some p) N = Return (Inr ?T')"
    using par assms(2,3) by (simp add: loop_body_def GetParent_def Case_I6_def)
  have root: "root_addr t = Some p"
    using rep_root_parent[OF rep dist par(1)] assms(3) by simp
  have "rep ?T' None (root ?T') (paint p BLACK t)"
    using paint_rep[OF rep par(2)] by simp
  moreover have "no_red_red (paint p BLACK t)"
    using nrr_paint_root[OF rep dist rr nin pn root] .
  moreover have "balanced (paint p BLACK t)"
    using balanced_paint_root[OF dist root bal] .
  moreover have "keys_same T ?T'"
    using par(2) by (simp add: keys_same_def map_update_same)
  ultimately show ?thesis using body by (auto simp: good_def)
qed

text \<open>The neighbourhood of the current node when its red parent has a parent.\<close>

lemma red_parent_ctx:
  assumes inv: "loop_inv T t n p" and pg: "parent (nodes T ! p) = Some g"
    and d0: "d0 = (if right (nodes T ! g) = Some p then RIGHT else LEFT)"
  obtains X Y where
    "g \<in> set (addrs t)" "g < length (nodes T)" "child (nodes T ! g) d0 = Some p"
    "childDir T (Some p) = Inr d0"
    "GetUncle T (Some n) = Inr (child (nodes T ! g) (other d0))"
    "sub g t = nodeD d0 X g (color (nodes T ! g)) (key (nodes T ! g)) Y"
    "rep T (Some g) (Some p) X"
    "rep T (Some g) (child (nodes T ! g) (other d0)) Y"
    "distinct (addrs (sub g t))" "rrx n (sub g t)" "balanced (sub g t)"
    "p \<in> set (addrs (sub g t))" "n \<in> set (addrs (sub g t))" "g \<noteq> p" "g \<noteq> n"
proof -
  note par = loop_inv_parent[OF inv]
  from inv have rep: "rep T None (root T) t" and nin: "n \<in> set (addrs t)"
    and pn: "parent (nodes T ! n) = Some p" and dist: "distinct (addrs t)"
    and rr: "rrx n t" and bal: "balanced t"
    by (auto simp: loop_inv_def)
  from rep_parent_in[OF rep par(1)] pg have gin: "g \<in> set (addrs t)"
    and ch: "left (nodes T ! g) = Some p \<or> right (nodes T ! g) = Some p" by auto
  have vg: "g < length (nodes T)" using rep_valid[OF rep gin] .
  have cd: "child (nodes T ! g) d0 = Some p"
    using ch d0 by auto
  have 1: "childDir T (Some p) = Inr d0"
    using par(2) vg pg d0 by (simp add: childDir_def)
  have 2: "GetUncle T (Some n) = Inr (child (nodes T ! g) (other d0))"
    using par(2,3) vg pg pn 1 by (simp add: GetUncle_def GetParent_def)
  from rep_sub[OF rep gin] have rs: "rep T (parent (nodes T ! g)) (Some g) (sub g t)" .
  then obtain X Y where s: "sub g t = nodeD d0 X g (color (nodes T ! g)) (key (nodes T ! g)) Y"
    and rX: "rep T (Some g) (child (nodes T ! g) d0) X"
    and rY: "rep T (Some g) (child (nodes T ! g) (other d0)) Y"
    by (rule rep_as_nodeD)
  have pX: "p \<in> set (addrs X)"
    using rX cd rep_root_addr[OF rX] root_addr_in by auto
  have ds: "distinct (addrs (sub g t))" using dist by (rule distinct_sub)
  have gp: "g \<noteq> p"
    using ds pX by (cases d0) (auto simp: s nodeD_def)
  have nX: "n \<in> set (addrs X)"
  proof -
    from rX cd obtain l cp kp r where X: "X = Node l p cp kp r" by (auto elim: rep_Some_Node)
    with rX cd have "rep T (Some p) (left (nodes T ! p)) l" "rep T (Some p) (right (nodes T ! p)) r"
      by auto
    with par(4) have "n \<in> set (addrs l) \<or> n \<in> set (addrs r)"
      by (auto dest!: rep_root_addr root_addr_in)
    with X show ?thesis by auto
  qed
  have gn: "g \<noteq> n"
    using ds nX by (cases d0) (auto simp: s nodeD_def)
  show ?thesis
    using that[OF gin vg cd 1 2 s _ rY ds rrx_sub[OF rr] balanced_sub[OF bal] _ _ gp gn]
      rX cd pX nX s by auto
qed

lemma paint3_rep:
  assumes "rep T None (root T) t" and "p < length (nodes T)" and "u < length (nodes T)"
    and "g < length (nodes T)"
  shows "\<exists>T'. Case_I1 T (Some p) (Some u) (Some g) = Inr T' \<and>
           rep T' None (root T') (paint g RED (paint u BLACK (paint p BLACK t)))"
proof -
  define T1 where "T1 = T\<lparr>nodes := (nodes T)[p := (nodes T ! p)\<lparr>color := BLACK\<rparr>]\<rparr>"
  define T2 where "T2 = T1\<lparr>nodes := (nodes T1)[u := (nodes T1 ! u)\<lparr>color := BLACK\<rparr>]\<rparr>"
  define T3 where "T3 = T2\<lparr>nodes := (nodes T2)[g := (nodes T2 ! g)\<lparr>color := RED\<rparr>]\<rparr>"
  have l: "length (nodes T1) = length (nodes T)" "length (nodes T2) = length (nodes T)"
    "root T1 = root T" "root T2 = root T" "root T3 = root T"
    by (simp_all add: T1_def T2_def T3_def)
  have s1: "store T (Some p) (\<lambda>n. n\<lparr>color := BLACK\<rparr>) = Inr T1"
    using assms(2) by (simp add: T1_def)
  have s2: "store T1 (Some u) (\<lambda>n. n\<lparr>color := BLACK\<rparr>) = Inr T2"
    using assms(3) l by (simp add: T2_def)
  have s3: "store T2 (Some g) (\<lambda>n. n\<lparr>color := RED\<rparr>) = Inr T3"
    using assms(4) l by (simp add: T3_def)
  have c: "Case_I1 T (Some p) (Some u) (Some g) = Inr T3"
    by (simp add: Case_I1_def s1 s2 s3)
  have "rep T1 None (root T) (paint p BLACK t)"
    unfolding T1_def using paint_rep[OF assms(1,2)] by simp
  then have "rep T2 None (root T) (paint u BLACK (paint p BLACK t))"
    unfolding T2_def using paint_rep[of T1 None "root T" _ u] assms(3) l by simp
  then have "rep T3 None (root T) (paint g RED (paint u BLACK (paint p BLACK t)))"
    unfolding T3_def using paint_rep[of T2 None "root T" _ g] assms(4) l by simp
  with c l show ?thesis by auto
qed

lemma step_I1:
  assumes inv: "loop_inv T t n p" and red: "color (nodes T ! p) = RED"
    and pg: "parent (nodes T ! p) = Some g"
    and d0: "d0 = (if right (nodes T ! g) = Some p then RIGHT else LEFT)"
    and U: "child (nodes T ! g) (other d0) = Some u" and cu: "color (nodes T ! u) = RED"
  shows "\<exists>T' t'. rep T' None (root T') t' \<and> addrs t' = addrs t \<and> keys t' = keys t \<and>
           balanced t' \<and> rrx g t' \<and> color (nodes T' ! g) = RED \<and>
           same_links T T' \<and> keys_same T T' \<and>
           loop_body T (Some p) (Some n) =
             (if parent (nodes T ! g) = None then Return (Inr T')
              else Again T' (parent (nodes T ! g)) (Some g))"
proof -
  note par = loop_inv_parent[OF inv]
  from inv have rep: "rep T None (root T) t" and nin: "n \<in> set (addrs t)"
    and pn: "parent (nodes T ! n) = Some p" and dist: "distinct (addrs t)"
    and rr: "rrx n t" and bal: "balanced t"
    by (auto simp: loop_inv_def)
  from red_parent_ctx[OF inv pg d0] obtain X Y where
    gin: "g \<in> set (addrs t)" and vg: "g < length (nodes T)"
    and cd: "child (nodes T ! g) d0 = Some p"
    and gu: "GetUncle T (Some n) = Inr (child (nodes T ! g) (other d0))"
    and s: "sub g t = nodeD d0 X g (color (nodes T ! g)) (key (nodes T ! g)) Y"
    and rX: "rep T (Some g) (Some p) X"
    and rY: "rep T (Some g) (child (nodes T ! g) (other d0)) Y"
    and ds: "distinct (addrs (sub g t))" and rrs: "rrx n (sub g t)" and bs: "balanced (sub g t)"
    and ps: "p \<in> set (addrs (sub g t))" and ns: "n \<in> set (addrs (sub g t))"
    and gp: "g \<noteq> p" and gn: "g \<noteq> n"
    by blast
  from rX red obtain PL kp PR where X: "X = Node PL p RED kp PR"
    and rPL: "rep T (Some p) (left (nodes T ! p)) PL"
    and rPR: "rep T (Some p) (right (nodes T ! p)) PR"
    by (cases X) auto
  from rY U cu obtain UL ku UR where Y: "Y = Node UL u RED ku UR" and vu: "u < length (nodes T)"
    by (cases Y) auto
  have nroot: "root_addr PL = Some n \<or> root_addr PR = Some n"
    using par(4) rep_root_addr[OF rPL] rep_root_addr[OF rPR] by auto
  have us: "u \<in> set (addrs (sub g t))" and gs: "g \<in> set (addrs (sub g t))"
    by (simp_all add: s Y)
  have gu': "g \<noteq> u" using ds by (cases d0) (auto simp: s X Y nodeD_def)
  let ?s' = "nodeD d0 (Node PL p BLACK kp PR) g RED (key (nodes T ! g)) (Node UL u BLACK ku UR)"
  note abs = abs_I1[OF s[unfolded X Y] ds rrs nroot bs]
  from paint3_rep[OF rep par(2) vu vg] obtain T' where
    c1: "Case_I1 T (Some p) (Some u) (Some g) = Inr T'"
    and rep': "rep T' None (root T') (paint g RED (paint u BLACK (paint p BLACK t)))" by blast
  have t': "paint g RED (paint u BLACK (paint p BLACK t)) = modify g (\<lambda>_. ?s') t"
  proof -
    have "paint g RED (paint u BLACK (paint p BLACK t)) =
          paint g RED (paint u BLACK (paint p BLACK (modify g (\<lambda>_. sub g t) t)))"
      by (simp add: replace_self[OF dist])
    also have "\<dots> = modify g (\<lambda>_. paint g RED (paint u BLACK (paint p BLACK (sub g t)))) t"
      by (simp add: paint_replace[OF dist ps] paint_replace[OF dist us] paint_replace[OF dist gs])
    finally show ?thesis by (simp add: abs(1))
  qed
  have a': "addrs (modify g (\<lambda>_. ?s') t) = addrs t" "keys (modify g (\<lambda>_. ?s') t) = keys t"
    unfolding t'[symmetric] by simp_all
  have b': "balanced (modify g (\<lambda>_. ?s') t)"
    using balanced_replace[OF dist bal gin abs(2) abs(3)] .
  have r': "rrx g (modify g (\<lambda>_. ?s') t)"
    using rrx_replace[OF dist gin rr ns abs(4), of g] by simp
  have col: "color (nodes T' ! g) = RED"
    using Case_I1_colors[OF c1 gp gu'] by simp
  have body: "loop_body T (Some p) (Some n) =
             (if parent (nodes T ! g) = None then Return (Inr T')
              else Again T' (parent (nodes T ! g)) (Some g))"
    using loop_body_red_uncle[OF par(2) red pg vg _ vu cu c1] gu U by simp
  note links = Case_I1_links[OF c1] and ks = Case_I1_keys_same[OF c1]
  show ?thesis
    apply (rule exI[of _ T'])
    apply (rule exI[of _ "modify g (\<lambda>_. ?s') t"])
    using rep' a' b' r' col links ks body unfolding t'
    apply (intro conjI)
    apply assumption+
    done
qed

lemma Case_I5_rep:
  assumes rep: "rep T None (root T) t" and dist: "distinct (addrs t)"
    and q: "q \<in> set (addrs t)" and g: "g \<in> set (addrs t)"
    and piv: "child (nodes T ! g) d \<noteq> None"
  shows "\<exists>T'. Case_I5 T (Some q) (Some g) d = Inr T' \<and>
           rep T' None (root T') (modify g (rot (other d)) (paint g RED (paint q BLACK t)))"
proof -
  have vq: "q < length (nodes T)" and vg: "g < length (nodes T)"
    using rep_valid[OF rep] q g by auto
  define T1 where "T1 = T\<lparr>nodes := (nodes T)[q := (nodes T ! q)\<lparr>color := BLACK\<rparr>]\<rparr>"
  define T2 where "T2 = T1\<lparr>nodes := (nodes T1)[g := (nodes T1 ! g)\<lparr>color := RED\<rparr>]\<rparr>"
  have l: "length (nodes T1) = length (nodes T)" "length (nodes T2) = length (nodes T)"
    "root T1 = root T" "root T2 = root T"
    by (simp_all add: T1_def T2_def)
  have s1: "store T (Some q) (\<lambda>n. n\<lparr>color := BLACK\<rparr>) = Inr T1"
    using vq by (simp add: T1_def)
  have s2: "store T1 (Some g) (\<lambda>n. n\<lparr>color := RED\<rparr>) = Inr T2"
    using vg l by (simp add: T2_def)
  have "rep T1 None (root T) (paint q BLACK t)"
    unfolding T1_def using paint_rep[OF rep vq] by simp
  then have r2: "rep T2 None (root T2) (paint g RED (paint q BLACK t))"
    unfolding T2_def using paint_rep[of T1 None "root T" _ g] vg l by simp
  have "child (nodes T1 ! g) d = child (nodes T ! g) d"
    using vq vg by (cases d; cases "g = q") (simp_all add: T1_def)
  then have "child (nodes T2 ! g) d = child (nodes T ! g) d"
    using vg l by (cases d) (simp_all add: T2_def)
  with piv have piv2: "child (nodes T2 ! g) (other (other d)) \<noteq> None"
    by (cases d) simp_all
  have "\<exists>T'. rotate True T2 (Some g) (other d) = Inr T' \<and> length (nodes T') = length (nodes T2) \<and>
           rep T' None (root T') (modify g (rot (other d)) (paint g RED (paint q BLACK t)))"
    by (rule rotate_rep[OF r2 _ _ piv2]) (simp_all add: dist g)
  then show ?thesis
    by (auto simp: Case_I5_def s1 s2 RotateDirRoot_def)
qed

lemma step_I5_outer:
  assumes inv: "loop_inv T t n p" and red: "color (nodes T ! p) = RED"
    and pg: "parent (nodes T ! p) = Some g"
    and d0: "d0 = (if right (nodes T ! g) = Some p then RIGHT else LEFT)"
    and U: "child (nodes T ! g) (other d0) = None \<or>
            (\<exists>u. child (nodes T ! g) (other d0) = Some u \<and> color (nodes T ! u) = BLACK)"
    and outer: "child (nodes T ! p) (other d0) \<noteq> Some n"
  shows "\<exists>T' t'. Case_I45 T (Some p) (Some g) (Some n) = Inr T' \<and> good T' t t'"
proof -
  note par = loop_inv_parent[OF inv]
  from inv have rep: "rep T None (root T) t" and nin: "n \<in> set (addrs t)"
    and pn: "parent (nodes T ! n) = Some p" and dist: "distinct (addrs t)"
    and rr: "rrx n t" and bal: "balanced t"
    by (auto simp: loop_inv_def)
  from red_parent_ctx[OF inv pg d0] obtain X Y where
    gin: "g \<in> set (addrs t)" and vg: "g < length (nodes T)"
    and cd: "child (nodes T ! g) d0 = Some p"
    and chd: "childDir T (Some p) = Inr d0"
    and s: "sub g t = nodeD d0 X g (color (nodes T ! g)) (key (nodes T ! g)) Y"
    and rX: "rep T (Some g) (Some p) X"
    and rY: "rep T (Some g) (child (nodes T ! g) (other d0)) Y"
    and ds: "distinct (addrs (sub g t))" and rrs: "rrx n (sub g t)" and bs: "balanced (sub g t)"
    and ps: "p \<in> set (addrs (sub g t))" and ns: "n \<in> set (addrs (sub g t))"
    and gp: "g \<noteq> p" and gn: "g \<noteq> n"
    by blast
  from rX obtain NS B where X: "X = nodeD d0 NS p (color (nodes T ! p)) (key (nodes T ! p)) B"
    and rNS: "rep T (Some p) (child (nodes T ! p) d0) NS"
    by (rule rep_as_nodeD)
  have "child (nodes T ! p) d0 = Some n"
    using par(4) outer by (cases d0) auto
  with rNS have nroot: "root_addr NS = Some n" by (simp add: rep_root_addr)
  have ublack: "root_color Y = BLACK"
    using U rY by (cases Y) auto
  have gs: "g \<in> set (addrs (sub g t))" by (simp add: s)
  let ?s' = "nodeD d0 NS p BLACK (key (nodes T ! p)) (nodeD d0 B g RED (key (nodes T ! g)) Y)"
  note abs = abs_I5_outer[OF s[unfolded X red] nroot ublack ds rrs bs]
  have c45: "Case_I45 T (Some p) (Some g) (Some n) = Case_I5 T (Some p) (Some g) d0"
    using chd par(2) outer by (simp add: Case_I45_def)
  from Case_I5_rep[OF rep dist par(1) gin, of d0] cd obtain T' where
    c5: "Case_I5 T (Some p) (Some g) d0 = Inr T'"
    and rep': "rep T' None (root T') (modify g (rot (other d0)) (paint g RED (paint p BLACK t)))"
    by auto
  have t': "modify g (rot (other d0)) (paint g RED (paint p BLACK t)) = modify g (\<lambda>_. ?s') t"
  proof -
    have "modify g (rot (other d0)) (paint g RED (paint p BLACK t)) =
          modify g (rot (other d0)) (paint g RED (paint p BLACK (modify g (\<lambda>_. sub g t) t)))"
      by (simp add: replace_self[OF dist])
    also have "\<dots> = modify g (\<lambda>_. modify g (rot (other d0)) (paint g RED (paint p BLACK (sub g t)))) t"
      by (simp add: paint_replace[OF dist ps] paint_replace[OF dist gs] modify_replace[OF dist gs])
    finally show ?thesis by (simp add: abs(1))
  qed
  have "addrs (modify g (\<lambda>_. ?s') t) = addrs t"
    using addrs_replace[OF dist abs(5) gin] .
  moreover have "keys (modify g (\<lambda>_. ?s') t) = keys t"
    using keys_replace[OF dist abs(6) gin] .
  moreover have "balanced (modify g (\<lambda>_. ?s') t)"
    using balanced_replace[OF dist bal gin abs(2) abs(3)] .
  moreover have "no_red_red (modify g (\<lambda>_. ?s') t)"
    using no_red_red_replace[OF dist gin rr ns abs(4) _ abs(5)] by simp
  ultimately have "good T' t (modify g (\<lambda>_. ?s') t)"
    using rep' unfolding t' good_def by simp
  with c45 c5 show ?thesis by auto
qed

lemma addrs_modify_rot [simp]: "addrs (modify p (rot d) t) = addrs t"
  by (induction t) auto

lemma keys_modify_rot [simp]: "keys (modify p (rot d) t) = keys t"
  by (induction t) auto

lemma step_I5_inner:
  assumes inv: "loop_inv T t n p" and red: "color (nodes T ! p) = RED"
    and pg: "parent (nodes T ! p) = Some g"
    and d0: "d0 = (if right (nodes T ! g) = Some p then RIGHT else LEFT)"
    and U: "child (nodes T ! g) (other d0) = None \<or>
            (\<exists>u. child (nodes T ! g) (other d0) = Some u \<and> color (nodes T ! u) = BLACK)"
    and inner: "child (nodes T ! p) (other d0) = Some n"
  shows "\<exists>T' t'. Case_I45 T (Some p) (Some g) (Some n) = Inr T' \<and> good T' t t'"
proof -
  note par = loop_inv_parent[OF inv]
  from inv have rep: "rep T None (root T) t" and nin: "n \<in> set (addrs t)"
    and pn: "parent (nodes T ! n) = Some p" and dist: "distinct (addrs t)"
    and rr: "rrx n t" and bal: "balanced t" and cn: "color (nodes T ! n) = RED"
    by (auto simp: loop_inv_def)
  from red_parent_ctx[OF inv pg d0] obtain X Y where
    gin: "g \<in> set (addrs t)" and vg: "g < length (nodes T)"
    and cd: "child (nodes T ! g) d0 = Some p"
    and chd: "childDir T (Some p) = Inr d0"
    and s: "sub g t = nodeD d0 X g (color (nodes T ! g)) (key (nodes T ! g)) Y"
    and rX: "rep T (Some g) (Some p) X"
    and rY: "rep T (Some g) (child (nodes T ! g) (other d0)) Y"
    and ds: "distinct (addrs (sub g t))" and rrs: "rrx n (sub g t)" and bs: "balanced (sub g t)"
    and ps: "p \<in> set (addrs (sub g t))" and ns: "n \<in> set (addrs (sub g t))"
    and gp: "g \<noteq> p" and gn: "g \<noteq> n"
    by blast
  from rX obtain A NS where X: "X = nodeD d0 A p (color (nodes T ! p)) (key (nodes T ! p)) NS"
    and rNS: "rep T (Some p) (child (nodes T ! p) (other d0)) NS"
    by (rule rep_as_nodeD)
  from rNS inner have "rep T (Some p) (Some n) NS" by simp
  then obtain B C where NS: "NS = nodeD d0 B n (color (nodes T ! n)) (key (nodes T ! n)) C"
    by (rule rep_as_nodeD)
  have ublack: "root_color Y = BLACK"
    using U rY by (cases Y) auto
  have gs: "g \<in> set (addrs (sub g t))" by (simp add: s)
  let ?s1 = "nodeD d0 (nodeD d0 (nodeD d0 A p RED (key (nodes T ! p)) B) n RED (key (nodes T ! n)) C)
                g (color (nodes T ! g)) (key (nodes T ! g)) Y"
  let ?s' = "nodeD d0 (nodeD d0 A p RED (key (nodes T ! p)) B) n BLACK (key (nodes T ! n))
                (nodeD d0 C g RED (key (nodes T ! g)) Y)"
  note abs = abs_I5_inner[OF s[unfolded X NS red cn] ublack ds rrs bs]
  text \<open>the rotation at \<open>p\<close>\<close>
  have "\<exists>T1. rotate False T (Some p) d0 = Inr T1 \<and> length (nodes T1) = length (nodes T) \<and>
           rep T1 None (root T1) (modify p (rot d0) t)"
    by (rule rotate_rep[OF rep dist par(1)]) (simp_all add: inner pg)
  then obtain T1 where r1: "RotateDir T (Some p) d0 = Inr T1"
    and l1: "length (nodes T1) = length (nodes T)"
    and rep1: "rep T1 None (root T1) (modify p (rot d0) t)"
    by (auto simp: RotateDir_def)
  have t1: "modify p (rot d0) t = modify g (\<lambda>_. ?s1) t"
  proof -
    have "modify p (rot d0) t = modify p (rot d0) (modify g (\<lambda>_. sub g t) t)"
      by (simp add: replace_self[OF dist])
    also have "\<dots> = modify g (\<lambda>_. modify p (rot d0) (sub g t)) t"
      by (rule modify_replace[OF dist ps])
    finally show ?thesis by (simp add: abs(1))
  qed
  have dist1: "distinct (addrs (modify p (rot d0) t))" using dist by simp
  have in1: "g \<in> set (addrs (modify p (rot d0) t))" "n \<in> set (addrs (modify p (rot d0) t))"
    using gin nin by simp_all
  have "sub g (modify p (rot d0) t) = ?s1"
    unfolding t1 by (rule sub_replace[OF dist gin]) simp
  with rep_sub[OF rep1 in1(1)] have "rep T1 (parent (nodes T1 ! g)) (Some g) ?s1" by simp
  then have cg1: "child (nodes T1 ! g) d0 = Some n"
    by (simp add: rep_nodeD_iff)
  have dg: "deref T1 (Some g) = Inr (nodes T1 ! g)" using vg l1 by simp
  have c45: "Case_I45 T (Some p) (Some g) (Some n) = Case_I5 T1 (Some n) (Some g) d0"
    using chd par(2) inner r1 dg cg1 by (simp add: Case_I45_def)
  from Case_I5_rep[OF rep1 dist1 in1(2) in1(1), of d0] cg1 obtain T' where
    c5: "Case_I5 T1 (Some n) (Some g) d0 = Inr T'"
    and rep': "rep T' None (root T')
        (modify g (rot (other d0)) (paint g RED (paint n BLACK (modify p (rot d0) t))))"
    by auto
  have t': "modify g (rot (other d0)) (paint g RED (paint n BLACK (modify p (rot d0) t))) =
              modify g (\<lambda>_. ?s') t"
  proof -
    have "modify g (rot (other d0)) (paint g RED (paint n BLACK (modify p (rot d0) t))) =
          modify g (rot (other d0)) (paint g RED (paint n BLACK
            (modify p (rot d0) (modify g (\<lambda>_. sub g t) t))))"
      by (simp add: replace_self[OF dist])
    also have "\<dots> = modify g (\<lambda>_. modify g (rot (other d0)) (paint g RED (paint n BLACK
            (modify p (rot d0) (sub g t))))) t"
      by (simp add: paint_replace[OF dist ns] paint_replace[OF dist gs]
          modify_replace[OF dist gs] modify_replace[OF dist ps])
    finally show ?thesis by (simp add: abs(2))
  qed
  have "addrs (modify g (\<lambda>_. ?s') t) = addrs t"
    using addrs_replace[OF dist abs(6) gin] .
  moreover have "keys (modify g (\<lambda>_. ?s') t) = keys t"
    using keys_replace[OF dist abs(7) gin] .
  moreover have "balanced (modify g (\<lambda>_. ?s') t)"
    using balanced_replace[OF dist bal gin abs(3) abs(4)] .
  moreover have "no_red_red (modify g (\<lambda>_. ?s') t)"
    using no_red_red_replace[OF dist gin rr ns abs(5) _ abs(6)] by simp
  ultimately have "good T' t (modify g (\<lambda>_. ?s') t)"
    using rep' unfolding t' good_def by simp
  with c45 c5 show ?thesis by auto
qed

lemma chain_same_links:
  assumes "chain T q m" and "same_links T T'"
  shows "chain T' q m"
  using assms(1)
proof (induction rule: chain.induct)
  case chain_None
  then show ?case by (rule chain.chain_None)
next
  case (chain_Some a m)
  then show ?case
    using same_links_parent[OF assms(2), of a] same_links_length[OF assms(2)]
    by (auto intro: chain.chain_Some)
qed

lemma chain_SomeD:
  assumes "chain T (Some a) m"
  obtains m' where "m = Suc m'" and "a < length (nodes T)" and "chain T (parent (nodes T ! a)) m'"
  using assms by (cases rule: chain.cases) auto

lemma rep_chain:
  assumes "rep T par q t" and "chain T par m" and "a \<in> set (addrs t)"
  shows "\<exists>k. chain T (Some a) k"
  using assms
proof (induction t arbitrary: par q m)
  case Leaf
  then show ?case by simp
next
  case (Node l b c k r)
  from Node.prems(1,2) have cb: "chain T (Some b) (Suc m)"
    by (auto intro: chain.chain_Some)
  from Node.prems(1) have rl: "rep T (Some b) (left (nodes T ! b)) l"
    and rr: "rep T (Some b) (right (nodes T ! b)) r" by auto
  from Node.prems(3) consider "a = b" | "a \<in> set (addrs l)" | "a \<in> set (addrs r)" by auto
  then show ?case
  proof cases
    case 1
    with cb show ?thesis by blast
  next
    case 2
    from Node.IH(1)[OF rl cb 2] show ?thesis .
  next
    case 3
    from Node.IH(2)[OF rr cb 3] show ?thesis .
  qed
qed

lemma loop_body_black_uncle:
  assumes "p < length (nodes T)" and "color (nodes T ! p) = RED"
    and "parent (nodes T ! p) = Some g"
    and "GetUncle T N = Inr U"
    and "U = None \<or> (\<exists>u. U = Some u \<and> u < length (nodes T) \<and> color (nodes T ! u) = BLACK)"
  shows "loop_body T (Some p) N = Return (Case_I45 T (Some p) (Some g) N)"
  using assms by (auto simp: loop_body_def GetParent_def)

lemma good_trans:
  "good T' t' t'' \<Longrightarrow> addrs t' = addrs t \<Longrightarrow> keys t' = keys t \<Longrightarrow> good T' t t''"
  by (simp add: good_def)

lemma RBloop_correct:
  assumes "chain T (Some n) m" and "loop_inv T t n p"
  shows "\<exists>T' t'. RBloop T (Some p) (Some n) = Some (Inr T') \<and> good T' t t'"
  using assms
proof (induction m arbitrary: T t n p rule: less_induct)
  case (less m)
  note inv = less.prems(2)
  note par = loop_inv_parent[OF inv]
  from inv have rep: "rep T None (root T) t" and nin: "n \<in> set (addrs t)"
    and pn: "parent (nodes T ! n) = Some p" and dist: "distinct (addrs t)"
    by (auto simp: loop_inv_def)
  show ?case
  proof (cases "color (nodes T ! p)")
    case BLACK
    from step_black(1)[OF inv BLACK, of "Some n"] step_black(2)[OF inv BLACK] show ?thesis
      by (subst RBloop.simps) auto
  next
    case RED
    show ?thesis
    proof (cases "parent (nodes T ! p)")
      case None
      from step_I6[OF inv RED None, of "Some n"] show ?thesis
        by (subst RBloop.simps) auto
    next
      case (Some g)
      define d0 where "d0 = (if right (nodes T ! g) = Some p then RIGHT else LEFT)"
      from red_parent_ctx[OF inv Some d0_def] obtain X Y where
        gin: "g \<in> set (addrs t)" and vg: "g < length (nodes T)"
        and gu: "GetUncle T (Some n) = Inr (child (nodes T ! g) (other d0))"
        and rY: "rep T (Some g) (child (nodes T ! g) (other d0)) Y"
        by blast
      have vu: "u < length (nodes T)" if "child (nodes T ! g) (other d0) = Some u" for u
        using rY that by (cases Y) auto
      consider (black) "child (nodes T ! g) (other d0) = None \<or>
            (\<exists>u. child (nodes T ! g) (other d0) = Some u \<and> color (nodes T ! u) = BLACK)"
        | (red) u where "child (nodes T ! g) (other d0) = Some u" "color (nodes T ! u) = RED"
        by (cases "child (nodes T ! g) (other d0)") (auto simp flip: not_BLACK)
      then show ?thesis
      proof cases
        case black
        have body: "loop_body T (Some p) (Some n) = Return (Case_I45 T (Some p) (Some g) (Some n))"
          using black vu by (intro loop_body_black_uncle[OF par(2) RED Some gu]) auto
        have "\<exists>T' t'. Case_I45 T (Some p) (Some g) (Some n) = Inr T' \<and> good T' t t'"
        proof (cases "child (nodes T ! p) (other d0) = Some n")
          case True
          from step_I5_inner[OF inv RED Some d0_def black True] show ?thesis .
        next
          case False
          from step_I5_outer[OF inv RED Some d0_def black False] show ?thesis .
        qed
        with body show ?thesis
          by (subst RBloop.simps) auto
      next
        case red
        from step_I1[OF inv RED Some d0_def red] obtain T' t' where
          rep': "rep T' None (root T') t'" and a': "addrs t' = addrs t" and k': "keys t' = keys t"
          and bal': "balanced t'" and rr': "rrx g t'" and col': "color (nodes T' ! g) = RED"
          and links: "same_links T T'"
          and body: "loop_body T (Some p) (Some n) =
             (if parent (nodes T ! g) = None then Return (Inr T')
              else Again T' (parent (nodes T ! g)) (Some g))"
          by blast
        have dist': "distinct (addrs t')" and gin': "g \<in> set (addrs t')"
          using dist gin a' by simp_all
        have pg': "parent (nodes T' ! g) = parent (nodes T ! g)"
          using same_links_parent[OF links vg] .
        show ?thesis
        proof (cases "parent (nodes T ! g)")
          case None
          with pg' rep_root_parent[OF rep' dist' gin'] have "root_addr t' = Some g" by simp
          with rr' dist' have "no_red_red t'" by (rule no_red_red_rrx_root)
          with rep' a' k' bal' have "good T' t t'" by (simp add: good_def)
          with body None show ?thesis
            by (subst RBloop.simps) auto
        next
          case (Some P')
          from less.prems(1) obtain m1 where m1: "m = Suc m1" "chain T (Some p) m1"
            using pn by (auto elim: chain_SomeD)
          then obtain m2 where m2: "m1 = Suc m2" "chain T (Some g) m2"
            using \<open>parent (nodes T ! p) = Some g\<close> by (auto elim: chain_SomeD)
          have ch': "chain T' (Some g) m2"
            using chain_same_links[OF m2(2) links] .
          have inv': "loop_inv T' t' g P'"
            using rep' dist' gin' pg' Some col' rr' bal' by (simp add: loop_inv_def)
          from less.IH[OF _ ch' inv'] m1 m2 obtain T'' t'' where
            "RBloop T' (Some P') (Some g) = Some (Inr T'')" "good T'' t' t''" by auto
          with body Some a' k' show ?thesis
            by (subst RBloop.simps) (auto intro: good_trans)
        qed
      qed
    qed
  qed
qed

lemma rep_append:
  "rep T par q t \<Longrightarrow> rep (T\<lparr>nodes := nodes T @ xs\<rparr>) par q t"
  by (induction t arbitrary: par q) (auto simp: nth_append)

lemma root_color_graft [simp]: "root_color (graft d new t) = root_color t"
  by (cases t; cases d) auto

lemma root_addr_graft [simp]: "root_addr (graft d new t) = root_addr t"
  by (cases t; cases d) auto

lemma root_color_modify_graft [simp]:
  "root_color (modify a (graft d new) t) = root_color t"
  by (cases t) auto

lemma root_addr_modify_graft [simp]:
  "root_addr (modify a (graft d new) t) = root_addr t"
  by (cases t) auto

lemma rrx_graft:
  "no_red_red t \<Longrightarrow> rrx n (modify a (graft d (Node Leaf n RED k Leaf)) t)"
proof (induction t)
  case Leaf
  then show ?case by simp
next
  case (Node l b c kb r)
  then show ?case
    by (cases d) (auto simp: rrx_no_red_red)
qed

lemma addrs_graft:
  assumes "distinct (addrs t)" and "a \<in> set (addrs t)" and "n \<notin> set (addrs t)"
  shows "distinct (addrs (modify a (graft d (Node Leaf n c k Leaf)) t)) \<and>
         n \<in> set (addrs (modify a (graft d (Node Leaf n c k Leaf)) t)) \<and>
         set (addrs (modify a (graft d (Node Leaf n c k Leaf)) t)) \<subseteq> insert n (set (addrs t))"
  using assms
proof (induction t)
  case Leaf
  then show ?case by simp
next
  case (Node l b cb kb r)
  show ?case
  proof (cases "b = a")
    case True
    with Node.prems show ?thesis by (cases d) auto
  next
    case False
    show ?thesis
    proof (cases "a \<in> set (addrs l)")
      case True
      with Node.prems have "a \<notin> set (addrs r)" by auto
      with Node.IH(1) Node.prems True False show ?thesis by auto
    next
      case nl: False
      with Node.prems False have "a \<in> set (addrs r)" by auto
      with Node.IH(2) Node.prems nl False show ?thesis by auto
    qed
  qed
qed

text \<open>The descent finds a free slot, and a key put there keeps the keys in order.\<close>

lemma find_slot_rep:
  assumes "rep T par q t" and "t \<noteq> Leaf" and "sorted (keys t)" and "distinct (addrs t)"
    and "keys new = [k]"
  shows "\<exists>a d. find_slot T k q = Some (Inr (Some a, d)) \<and> a \<in> set (addrs t) \<and>
           child (nodes T ! a) d = None \<and>
           sorted (keys (modify a (graft d new) t)) \<and>
           set (keys (modify a (graft d new) t)) = insert k (set (keys t))"
  using assms(1-4)
proof (induction t arbitrary: par q)
  case Leaf
  then show ?case by simp
next
  case (Node l b c kb r)
  from Node.prems(1) have rl: "rep T (Some b) (left (nodes T ! b)) l"
    and rr: "rep T (Some b) (right (nodes T ! b)) r" and q: "q = Some b"
    and vb: "b < length (nodes T)" and kb: "key (nodes T ! b) = kb" by auto
  from Node.prems(3) have sl: "sorted (keys l)" and sr: "sorted (keys r)"
    and lb: "\<forall>x \<in> set (keys l). x \<le> kb" and br: "\<forall>x \<in> set (keys r). kb \<le> x"
    and lr: "\<forall>x \<in> set (keys l). \<forall>y \<in> set (keys r). x \<le> y"
    by (auto simp: sorted_append)
  from Node.prems(4) have dl: "distinct (addrs l)" and dr: "distinct (addrs r)"
    and bl: "b \<notin> set (addrs l)" and brr: "b \<notin> set (addrs r)"
    and disj: "set (addrs l) \<inter> set (addrs r) = {}" by auto
  show ?case
  proof (cases "k < kb")
    case True
    show ?thesis
    proof (cases "left (nodes T ! b)")
      case None
      with rl have l: "l = Leaf" by (cases l) auto
      have "find_slot T k q = Some (Inr (Some b, LEFT))"
        using q vb kb True None by (subst find_slot.simps) simp
      moreover have "sorted (keys (Node new b c kb r))"
        using True sr br assms(5) by (auto simp: sorted_append)
      ultimately show ?thesis
        using None l assms(5) by (intro exI[of _ b] exI[of _ LEFT]) auto
    next
      case (Some x)
      with rl have ne: "l \<noteq> Leaf" by (cases l) auto
      from Node.IH(1)[OF rl ne sl dl] obtain a d where
        f: "find_slot T k (left (nodes T ! b)) = Some (Inr (Some a, d))"
        and a: "a \<in> set (addrs l)" and ch: "child (nodes T ! a) d = None"
        and so: "sorted (keys (modify a (graft d new) l))"
        and se: "set (keys (modify a (graft d new) l)) = insert k (set (keys l))"
        by blast
      have "find_slot T k q = Some (Inr (Some a, d))"
        using q vb kb True Some f by (subst find_slot.simps) simp
      moreover have "a \<noteq> b" "a \<notin> set (addrs r)" using a bl disj by auto
      moreover have "sorted (keys (modify a (graft d new) l) @ kb # keys r)"
        using so se sr lb br lr True by (auto simp: sorted_append)
      ultimately show ?thesis
        using a ch se by (intro exI[of _ a] exI[of _ d]) auto
    qed
  next
    case False
    show ?thesis
    proof (cases "right (nodes T ! b)")
      case None
      with rr have r: "r = Leaf" by (cases r) auto
      have "find_slot T k q = Some (Inr (Some b, RIGHT))"
        using q vb kb False None by (subst find_slot.simps) simp
      moreover have "sorted (keys (Node l b c kb new))"
        using False sl lb assms(5) by (auto simp: sorted_append)
      ultimately show ?thesis
        using None r assms(5) by (intro exI[of _ b] exI[of _ RIGHT]) auto
    next
      case (Some x)
      with rr have ne: "r \<noteq> Leaf" by (cases r) auto
      from Node.IH(2)[OF rr ne sr dr] obtain a d where
        f: "find_slot T k (right (nodes T ! b)) = Some (Inr (Some a, d))"
        and a: "a \<in> set (addrs r)" and ch: "child (nodes T ! a) d = None"
        and so: "sorted (keys (modify a (graft d new) r))"
        and se: "set (keys (modify a (graft d new) r)) = insert k (set (keys r))"
        by blast
      have "find_slot T k q = Some (Inr (Some a, d))"
        using q vb kb False Some f by (subst find_slot.simps) simp
      moreover have "a \<noteq> b" "a \<notin> set (addrs l)" using a brr disj by auto
      moreover have "sorted (keys l @ kb # keys (modify a (graft d new) r))"
        using so se sl lb br lr False by (auto simp: sorted_append)
      ultimately show ?thesis
        using a ch se by (intro exI[of _ a] exI[of _ d]) auto
    qed
  qed
qed

lemma graft_nodeD: "graft d new (nodeD d x a c k y) = nodeD d new a c k y"
  by (cases d) (simp_all add: nodeD_def)

lemma link_rep:
  assumes rep: "rep T None (root T) t" and dist: "distinct (addrs t)"
    and a: "a \<in> set (addrs t)" and slot: "child (nodes T ! a) d = None"
    and n: "n < length (nodes T)" "n \<notin> set (addrs t)"
    and bal: "balanced t"
  shows "\<exists>T1. RBlink T (Some a) (Some n) d = Inr T1 \<and>
           rep T1 None (root T1)
             (modify a (graft d (Node Leaf n RED (key (nodes T ! n)) Leaf)) t) \<and>
           balanced (modify a (graft d (Node Leaf n RED (key (nodes T ! n)) Leaf)) t) \<and>
           parent (nodes T1 ! n) = Some a \<and> color (nodes T1 ! n) = RED"
proof -
  let ?new = "Node Leaf n RED (key (nodes T ! n)) Leaf"
  have va: "a < length (nodes T)" using rep_valid[OF rep a] .
  have an: "a \<noteq> n" using a n by auto
  define T1 where "T1 = T\<lparr>nodes := (nodes T)
        [n := (nodes T ! n)\<lparr>color := RED, left := None, right := None, parent := Some a\<rparr>,
         a := set_child d (Some n) (nodes T ! a)]\<rparr>"
  have link: "RBlink T (Some a) (Some n) d = Inr T1"
    using n(1) va an by (simp add: RBlink_Some T1_def)
  have len: "length (nodes T1) = length (nodes T)" and rt: "root T1 = root T"
    by (simp_all add: T1_def)
  have na: "nodes T1 ! a = set_child d (Some n) (nodes T ! a)"
    using va by (simp add: T1_def)
  have nn: "nodes T1 ! n = (nodes T ! n)\<lparr>color := RED, left := None, right := None, parent := Some a\<rparr>"
    using n(1) an by (simp add: T1_def)
  have no: "nodes T1 ! b = nodes T ! b" if "b \<noteq> a" "b \<noteq> n" for b
    using that by (simp add: T1_def)
  from rep_sub[OF rep a] obtain x y where
    s: "sub a t = nodeD d x a (color (nodes T ! a)) (key (nodes T ! a)) y"
    and rx: "rep T (Some a) (child (nodes T ! a) d) x"
    and ry: "rep T (Some a) (child (nodes T ! a) (other d)) y"
    by (rule rep_as_nodeD)
  from rx slot have x: "x = Leaf" by (cases x) auto
  have ysub: "set (addrs y) \<subseteq> set (addrs (sub a t))" by (auto simp: s)
  have asub: "a \<in> set (addrs (sub a t))" by (simp add: s)
  have ay: "a \<notin> set (addrs y)"
    using distinct_sub[OF dist, of a] by (cases d) (auto simp: s nodeD_def)
  have ry1: "rep T1 (Some a) (child (nodes T ! a) (other d)) y"
  proof (rule rep_frame[OF ry len])
    fix b assume "b \<in> set (addrs y)"
    with ysub addrs_sub[of a t] n(2) ay show "nodes T1 ! b = nodes T ! b"
      by (intro no) auto
  qed
  have new: "rep T1 (parent (nodes T ! a)) (Some a)
               (nodeD d ?new a (color (nodes T ! a)) (key (nodes T ! a)) y)"
    using ry1 va len na nn n(1) by (cases d) (simp_all add: rep_nodeD_iff)
  have "rep T1 None (if root T = Some a then Some a else root T)
          (modify a (\<lambda>_. nodeD d ?new a (color (nodes T ! a)) (key (nodes T ! a)) y) t)"
  proof (rule rep_replace[OF rep dist a len _ _ new])
    fix b assume "b \<in> set (addrs t)" "b \<notin> set (addrs (sub a t))"
    with asub n(2) show "nodes T1 ! b = nodes T ! b" by (intro no) auto
  next
    fix b assume pb: "parent (nodes T ! a) = Some b" and b: "b \<in> set (addrs t)"
    have "b \<noteq> a"
      using parent_notin_sub[OF rep dist a _ pb] asub by auto
    with b n(2) have "nodes T1 ! b = nodes T ! b" by (intro no) auto
    then show "parent (nodes T1 ! b) = parent (nodes T ! b) \<and>
          color (nodes T1 ! b) = color (nodes T ! b) \<and>
          key (nodes T1 ! b) = key (nodes T ! b) \<and>
          left (nodes T1 ! b) = (if left (nodes T ! b) = Some a then Some a else left (nodes T ! b)) \<and>
          right (nodes T1 ! b) = (if right (nodes T ! b) = Some a then Some a else right (nodes T ! b))"
      by simp
  qed
  moreover have m: "modify a (\<lambda>_. nodeD d ?new a (color (nodes T ! a)) (key (nodes T ! a)) y) t =
      modify a (graft d ?new) t"
    using modify_const[OF dist, of a "graft d ?new"] by (simp add: s graft_nodeD)
  moreover have "balanced (modify a (\<lambda>_. nodeD d ?new a (color (nodes T ! a)) (key (nodes T ! a)) y) t)"
  proof (rule balanced_replace[OF dist bal a])
    show "bheight (nodeD d ?new a (color (nodes T ! a)) (key (nodes T ! a)) y) = bheight (sub a t)"
      using balanced_sub[OF bal, of a] by (cases d) (simp_all add: s x nodeD_def)
    show "balanced (nodeD d ?new a (color (nodes T ! a)) (key (nodes T ! a)) y)"
      using balanced_sub[OF bal, of a] by (cases d) (simp_all add: s x nodeD_def)
  qed
  ultimately show ?thesis
    using link rt nn by auto
qed

lemma inv_empty: "inv empty_tree Leaf"
  by (simp add: inv_def empty_tree_def)

lemma length_keys: "length (keys t) = length (addrs t)"
  by (induction t) auto

lemma mset_keys_graft:
  assumes "rep T par q t" and "distinct (addrs t)" and "a \<in> set (addrs t)"
    and "child (nodes T ! a) d = None"
  shows "mset (keys (modify a (graft d new) t)) = mset (keys new) + mset (keys t)"
  using assms(1-3)
proof (induction t arbitrary: par q)
  case Leaf
  then show ?case by simp
next
  case (Node l b c kb r)
  from Node.prems(1) have rl: "rep T (Some b) (left (nodes T ! b)) l"
    and rr: "rep T (Some b) (right (nodes T ! b)) r" by auto
  from Node.prems(2) have dl: "distinct (addrs l)" and dr: "distinct (addrs r)"
    and bl: "b \<notin> set (addrs l)" and brr: "b \<notin> set (addrs r)"
    and disj: "set (addrs l) \<inter> set (addrs r) = {}" by auto
  show ?case
  proof (cases "a = b")
    case True
    show ?thesis
    proof (cases d)
      case LEFT
      with assms(4) True rl have "l = Leaf" by (cases l) auto
      with True LEFT show ?thesis by simp
    next
      case RIGHT
      with assms(4) True rr have "r = Leaf" by (cases r) auto
      with True RIGHT show ?thesis by simp
    qed
  next
    case False
    with Node.prems(3) consider "a \<in> set (addrs l)" | "a \<in> set (addrs r)" by auto
    then show ?thesis
    proof cases
      case 1
      with disj have "a \<notin> set (addrs r)" by auto
      with False Node.IH(1)[OF rl dl 1] show ?thesis by simp
    next
      case 2
      with disj have "a \<notin> set (addrs l)" by auto
      with False Node.IH(2)[OF rr dr 2] show ?thesis by simp
    qed
  qed
qed

lemma insert_key_correct:
  assumes "inv T t"
  shows "\<exists>T' t'. insert_key T k = Some (Inr T') \<and> inv T' t' \<and>
           mset (keys t') = add_mset k (mset (keys t))"
proof -
  from assms have rep: "rep T None (root T) t" and dist: "distinct (addrs t)"
    and nrr: "no_red_red t" and bal: "balanced t" and so: "sorted (keys t)"
    by (auto simp: inv_def)
  define n where "n = length (nodes T)"
  define T0 where "T0 = T\<lparr>nodes := nodes T @ [new_node k]\<rparr>"
  have al: "alloc T k = (T0, Some n)" by (simp add: alloc_def T0_def n_def)
  have rep0: "rep T0 None (root T0) t"
    using rep_append[OF rep, of "[new_node k]"] by (simp add: T0_def)
  have vn: "n < length (nodes T0)" and kn: "key (nodes T0 ! n) = k"
    by (simp_all add: T0_def n_def new_node_def)
  have nt: "n \<notin> set (addrs t)"
    using rep_valid[OF rep, of n] by (auto simp: n_def)
  show ?thesis
  proof (cases "root T")
    case None
    with rep have t: "t = Leaf" by (cases t) auto
    let ?T1 = "T0\<lparr>root := Some n, nodes := (nodes T0)
        [n := (nodes T0 ! n)\<lparr>color := RED, left := None, right := None, parent := None\<rparr>]\<rparr>"
    have "insert_key T k = Some (Inr ?T1)"
      using None al vn by (simp add: insert_key_def RBinsert1_def RBlink_None)
    moreover have "inv ?T1 (Node Leaf n RED k Leaf)"
      using vn kn by (simp add: inv_def)
    ultimately show ?thesis using t by (intro exI[of _ ?T1] exI[of _ "Node Leaf n RED k Leaf"]) simp
  next
    case (Some r)
    with rep have ne: "t \<noteq> Leaf" by (cases t) auto
    let ?new = "Node Leaf n RED k Leaf"
    have rt0: "root T0 = root T" by (simp add: T0_def)
    from find_slot_rep[OF rep0 ne so dist, of ?new k] obtain a d where
      fs: "find_slot T0 k (root T) = Some (Inr (Some a, d))" and a: "a \<in> set (addrs t)"
      and slot: "child (nodes T0 ! a) d = None"
      and so1: "sorted (keys (modify a (graft d ?new) t))"
      by (auto simp: rt0)
    have se1: "mset (keys (modify a (graft d ?new) t)) = add_mset k (mset (keys t))"
      using mset_keys_graft[OF rep0 dist a slot, of ?new] by simp
    from link_rep[OF rep0 dist a slot vn nt bal] kn obtain T1 where
      link: "RBlink T0 (Some a) (Some n) d = Inr T1"
      and rep1: "rep T1 None (root T1) (modify a (graft d ?new) t)"
      and bal1: "balanced (modify a (graft d ?new) t)"
      and pn: "parent (nodes T1 ! n) = Some a" and cn: "color (nodes T1 ! n) = RED"
      by auto
    from addrs_graft[OF dist a nt, of d RED k]
    have d1: "distinct (addrs (modify a (graft d ?new) t))"
      and n1: "n \<in> set (addrs (modify a (graft d ?new) t))" by auto
    have li: "loop_inv T1 (modify a (graft d ?new) t) n a"
      using rep1 d1 n1 pn cn rrx_graft[OF nrr] bal1 by (simp add: loop_inv_def)
    from rep_chain[OF rep1 chain_None n1] obtain m where "chain T1 (Some n) m" by blast
    from RBloop_correct[OF this li] obtain T' t' where
      loop: "RBloop T1 (Some a) (Some n) = Some (Inr T')"
      and g: "good T' (modify a (graft d ?new) t) t'" by blast
    have "insert_key T k = Some (Inr T')"
      using Some al fs link loop by (simp add: insert_key_def RBinsert1_def)
    moreover have "inv T' t'"
      using g d1 so1 by (simp add: good_def inv_def)
    moreover have "mset (keys t') = add_mset k (mset (keys t))"
      using g se1 by (simp add: good_def)
    ultimately show ?thesis by blast
  qed
qed


lemma tree_of_rep:
  "rep T par q t \<Longrightarrow> depth t \<le> n \<Longrightarrow> tree_of n T par q = Some t"
proof (induction t arbitrary: par q n)
  case Leaf
  then show ?case by simp
next
  case (Node l a c k r)
  from Node.prems(2) obtain n' where n: "n = Suc n'" "depth l \<le> n'" "depth r \<le> n'"
    by (cases n) auto
  from Node.prems(1) have "rep T (Some a) (left (nodes T ! a)) l"
    "rep T (Some a) (right (nodes T ! a)) r" by auto
  with Node.IH n have "tree_of n' T (Some a) (left (nodes T ! a)) = Some l"
    "tree_of n' T (Some a) (right (nodes T ! a)) = Some r" by auto
  with Node.prems(1) n show ?case by simp
qed

lemma depth_le_addrs: "depth t \<le> length (addrs t)"
  by (induction t) auto

lemma distinct_bounded_length:
  assumes "distinct xs" and "\<forall>x \<in> set xs. x < (N::nat)"
  shows "length xs \<le> N"
proof -
  have "length xs = card (set xs)" using assms(1) by (simp add: distinct_card)
  also have "\<dots> \<le> card {..<N}" using assms(2) by (intro card_mono) auto
  finally show ?thesis by simp
qed

lemma the_tree_rep:
  assumes "rep T None (root T) t" and "distinct (addrs t)"
  shows "the_tree T = Some t"
proof -
  have "length (addrs t) \<le> length (nodes T)"
    using assms(2) rep_valid[OF assms(1)] by (intro distinct_bounded_length) auto
  with depth_le_addrs[of t] have "depth t \<le> length (nodes T)" by simp
  from tree_of_rep[OF assms(1) this] assms(2) show ?thesis
    by (simp add: the_tree_def)
qed

lemma ordered_sorted: "sorted (keys t) \<Longrightarrow> ordered t"
  by (induction t) (auto simp: sorted_append list_all_iff)

lemma inv_validate:
  assumes "inv T t"
  shows "the_tree T = Some t" and "validate_but_root T"
proof -
  from assms show 1: "the_tree T = Some t"
    by (auto simp: inv_def intro: the_tree_rep)
  from assms show "validate_but_root T"
    by (simp add: validate_but_root_def 1 inv_def ordered_sorted)
qed

lemma insert_all_correct:
  assumes "inv T t"
  shows "\<exists>T' t'. insert_all T ks = Some (Inr T') \<and> inv T' t' \<and>
           mset (keys t') = mset ks + mset (keys t)"
  using assms
proof (induction ks arbitrary: T t)
  case Nil
  then show ?case by auto
next
  case (Cons k ks)
  from insert_key_correct[OF Cons.prems, of k] obtain T1 t1 where
    1: "insert_key T k = Some (Inr T1)" "inv T1 t1" "mset (keys t1) = add_mset k (mset (keys t))"
    by blast
  from Cons.IH[OF 1(2)] obtain T' t' where
    "insert_all T1 ks = Some (Inr T')" "inv T' t'" "mset (keys t') = mset ks + mset (keys t1)"
    by blast
  with 1 show ?case by (intro exI[of _ T'] exI[of _ t']) auto
qed


lemma loop_inv_chain:
  assumes "loop_inv T t n p"
  shows "\<exists>m. chain T (Some n) m"
  using assms rep_chain[OF _ chain_None, of T "root T" t n] by (auto simp: loop_inv_def)

lemma loop_body_Again_up:
  assumes "loop_body T (Some p) (Some n) = Again T1 P1 N1" and "chain T (Some n) m"
    and "parent (nodes T ! n) = Some p"
  shows "\<exists>g u m'. parent (nodes T ! p) = Some g \<and> color (nodes T ! p) = RED \<and>
           GetUncle T (Some n) = Inr (Some u) \<and> color (nodes T ! u) = RED \<and>
           N1 = Some g \<and> P1 = parent (nodes T ! g) \<and> same_links T T1 \<and>
           m = Suc (Suc m') \<and> chain T1 (Some g) m'"
proof -
  from loop_body_Again[OF assms(1)] obtain g u where
    1: "p < length (nodes T)" "color (nodes T ! p) = RED" "parent (nodes T ! p) = Some g"
    "GetUncle T (Some n) = Inr (Some u)" "color (nodes T ! u) = RED"
    "Case_I1 T (Some p) (Some u) (Some g) = Inr T1" "g < length (nodes T1)"
    "N1 = Some g" "P1 = parent (nodes T1 ! g)"
    by auto
  note links = Case_I1_links[OF 1(6)]
  have vg: "g < length (nodes T)" using 1(7) same_links_length[OF links] by simp
  from assms(2,3) obtain m1 where m1: "m = Suc m1" "chain T (Some p) m1"
    by (auto elim: chain_SomeD)
  with 1(3) obtain m2 where m2: "m1 = Suc m2" "chain T (Some g) m2"
    by (auto elim: chain_SomeD)
  from chain_same_links[OF m2(2) links] same_links_parent[OF links vg] 1 m1 m2 links
  show ?thesis by auto
qed

lemma loop_inv_ex_uncle_red: "loop_inv ex_uncle_red ex_uncle_red_tree 5 3"
  by (simp add: loop_inv_def ex_uncle_red_def ex_uncle_red_tree_def mk_def)







subsection \<open>The loop of \<^verbatim>\<open>rb_insert\<close> with a parent that is a right child\<close>

lemma rb_loop_spin:
  assumes "rb_body T x = Next T x"
  shows "rb_loop T x = None"
proof -
  have "T' = T \<longrightarrow> x' \<noteq> x" if h: "rb_loop T' x' = Some y" for T' x' y
  proof (rule rb_loop.raw_induct[where P="\<lambda>T1 x1 r. \<not> (T1 = T \<and> x1 = x)" and xa="(T', x')"
        and y=y, simplified])
    show "rb_loop T' x' = Some y" by (rule h)
  next
    fix f T0 x0 y0
    assume IH: "\<And>T1 x1 y1. f T1 x1 = Some y1 \<Longrightarrow> T1 = T \<longrightarrow> x1 \<noteq> x"
      and eq: "(case rb_body T0 x0 of Exit T' \<Rightarrow> Some (Inr T') | Fail e \<Rightarrow> Some (Inl e)
                | Next T' x' \<Rightarrow> f T' x') = Some y0"
    show "T0 = T \<longrightarrow> x0 \<noteq> x"
    proof (intro impI notI)
      assume "T0 = T" "x0 = x"
      with eq assms have "f T x = Some y0" by simp
      with IH show False by blast
    qed
  qed
  then show ?thesis by (cases "rb_loop T x") auto
qed

lemma rb_body_ex_right_parent:
  "rb_body ex_right_parent (Some 2) = Next ex_right_parent (Some 2)"
  by (simp add: rb_body_def ex_right_parent_def mk_def)

lemma loop_inv_ex_right_parent: "loop_inv ex_right_parent ex_right_parent_tree 2 1"
  by (simp add: loop_inv_def ex_right_parent_def ex_right_parent_tree_def mk_def)

lemma rb_insert_two:
  "rb_insert ex_three_fresh (Some 0) = Some (Inr (ex_three_fresh\<lparr>root := Some 0\<rparr>))"
  "rb_insert (ex_three_fresh\<lparr>root := Some 0\<rparr>) (Some 1) = Some (Inr ex_two_inserted)"
  by code_simp+

lemma tree_insert_third:
  "tree_insert ex_two_inserted (Some 2) =
     Some (Inr \<lparr>root = Some 0, nodes =
       [mk 1 BLACK None None (Some 1), mk 2 RED (Some 0) None (Some 2), mk 3 BLACK (Some 1) None None]\<rparr>)"
  by code_simp

lemma rb_insert_third: "rb_insert ex_two_inserted (Some 2) = None"
proof -
  have "store \<lparr>root = Some 0, nodes =
       [mk 1 BLACK None None (Some 1), mk 2 RED (Some 0) None (Some 2), mk 3 BLACK (Some 1) None None]\<rparr>
       (Some 2) (\<lambda>n. n\<lparr>color := RED\<rparr>) = Inr ex_right_parent"
    by (simp add: ex_right_parent_def mk_def)
  then show ?thesis
    by (simp add: rb_insert_def tree_insert_third rb_loop_spin[OF rb_body_ex_right_parent])
qed

lemma RBloop_ex_right_parent:
  "RBloop ex_right_parent (Some 1) (Some 2) =
     Some (Inr \<lparr>root = Some 1, nodes =
       [mk 1 RED (Some 1) None None, mk 2 BLACK None (Some 0) (Some 2), mk 3 RED (Some 1) None None]\<rparr>)"
  by code_simp

section \<open>Properties of \<^verbatim>\<open>RBinsert1\<close> and \<^verbatim>\<open>rb_insert\<close>\<close>








text \<open>
  C10. With a parent \<open>P\<close>, \<^verbatim>\<open>RBinsert1\<close> stores \<open>N\<close> as \<open>P\<close>'s child on side \<open>d\<close> whatever
  the slot held. A node \<open>c\<close> that was there, and that nothing else pointed to, has no link
  leading to it afterwards and cannot be reached from the root; with a BLACK parent that
  is the store the call returns.
\<close>

theorem link_overwrites_slot:
  assumes "p < length (nodes T)" and "n < length (nodes T)" and "p \<noteq> n"
    and "child (nodes T ! p) d = Some c" and "c \<noteq> n"
    and "root T \<noteq> Some c"
    and "only_link T c p d"
  shows "\<exists>T1. RBlink T (Some p) (Some n) d = Inr T1 \<and>
           child (nodes T1 ! p) d = Some n \<and>
           (\<forall>a d'. a < length (nodes T1) \<longrightarrow> child (nodes T1 ! a) d' \<noteq> Some c) \<and>
           root T1 \<noteq> Some c \<and> \<not> reach T1 c \<and>
           (color (nodes T ! p) = BLACK \<longrightarrow> RBinsert1 T (Some p) (Some n) d = Some (Inr T1))"
proof -
  define T1 where "T1 = T\<lparr>nodes := (nodes T)
        [n := (nodes T ! n)\<lparr>color := RED, left := None, right := None, parent := Some p\<rparr>,
         p := set_child d (Some n) (nodes T ! p)]\<rparr>"
  have 1: "RBlink T (Some p) (Some n) d = Inr T1"
    using assms(1-3) by (simp add: RBlink_Some T1_def)
  have len: "length (nodes T1) = length (nodes T)" and rt: "root T1 = root T"
    by (simp_all add: T1_def)
  have np: "nodes T1 ! p = set_child d (Some n) (nodes T ! p)"
    using assms(1) by (simp add: T1_def)
  have nn: "nodes T1 ! n = (nodes T ! n)\<lparr>color := RED, left := None, right := None, parent := Some p\<rparr>"
    using assms(2,3) by (simp add: T1_def)
  have no: "nodes T1 ! a = nodes T ! a" if "a \<noteq> p" "a \<noteq> n" for a
    using that by (simp add: T1_def)
  have 2: "child (nodes T1 ! p) d = Some n"
    by (simp add: np)
  have 3: "child (nodes T1 ! a) d' \<noteq> Some c" if a: "a < length (nodes T1)" for a d'
  proof -
    consider "a = p" "d' = d" | "a = p" "d' \<noteq> d" | "a = n" "a \<noteq> p" | "a \<noteq> p" "a \<noteq> n"
      by blast
    then show ?thesis
    proof cases
      case 1
      then show ?thesis using assms(5) by (simp add: np)
    next
      case 2
      with assms(1) only_linkD[OF assms(7)] have "child (nodes T ! p) d' \<noteq> Some c" by blast
      with 2 show ?thesis by (simp add: np)
    next
      case 3
      then show ?thesis by (simp add: nn)
    next
      case 4
      with a len only_linkD[OF assms(7)] have "child (nodes T ! a) d' \<noteq> Some c" by metis
      with 4 show ?thesis by (simp add: no)
    qed
  qed
  have 4: "\<not> reach T1 c"
    using reach_no_link[of T1 c] 3 assms(6) rt by auto
  have 5: "RBinsert1 T (Some p) (Some n) d = Some (Inr T1)" if "color (nodes T ! p) = BLACK"
  proof -
    from that have "color (nodes T1 ! p) = BLACK" by (simp add: np)
    then have "loop_body T1 (Some p) (Some n) = Return (Inr T1)"
      using assms(1) len by (simp add: loop_body_def)
    then show ?thesis
      using 1 by (simp add: RBinsert1_def RBloop.simps)
  qed
  from 1 2 3 4 5 rt assms(6) show ?thesis by auto
qed

theorem link_overwrites_slot_witness:
  "child (nodes ex_overwrite ! 0) LEFT = Some 1 \<and> root ex_overwrite \<noteq> Some 1 \<and>
   only_link ex_overwrite 1 0 LEFT \<and>
   (\<exists>T1. RBinsert1 ex_overwrite (Some 0) (Some 2) LEFT = Some (Inr T1) \<and>
      child (nodes T1 ! 0) LEFT = Some 2 \<and> \<not> reach T1 1)"
proof -
  have h: "(0::nat) < length (nodes ex_overwrite)" "(2::nat) < length (nodes ex_overwrite)"
    "(0::nat) \<noteq> 2" "child (nodes ex_overwrite ! 0) LEFT = Some 1" "(1::nat) \<noteq> 2"
    "root ex_overwrite \<noteq> Some 1"
    by (simp_all add: ex_overwrite_def mk_def)
  have h7: "only_link ex_overwrite 1 0 LEFT"
    by (simp add: only_link_def ex_overwrite_def mk_def upt_rec)
  have b: "color (nodes ex_overwrite ! 0) = BLACK"
    by (simp add: ex_overwrite_def mk_def)
  from link_overwrites_slot [OF h h7] b show ?thesis
    using h(4,6) h7 by blast
qed

text \<open>
  C9. For a parent that is a left child, \<^verbatim>\<open>rb_insert\<close> takes the uncle \<open>y\<close> from the right
  link of the grandparent and reads its colour without a test: when that link is absent
  the read fails, when it leads to a node coloured BLACK the code goes on to cases 2 and
  3. In the same store \<^verbatim>\<open>RBinsert1\<close> finds the uncle \<^verbatim>\<open>NIL\<close> and goes to \<^verbatim>\<open>Case_I45\<close>
  without reading its colour.
\<close>

theorem uncle_read_unchecked:
  assumes "x \<noteq> root T" and "deref T x = Inr xn" and "deref T (parent xn) = Inr pn"
    and "color pn = RED" and "deref T (parent pn) = Inr gn"
    and "parent xn = left gn" and "right gn \<noteq> parent xn"
  shows "GetUncle T x = Inr (right gn) \<and>
         (right gn = None \<longrightarrow>
            rb_body T x = Fail NullDeref \<and> rb_loop T x = Some (Inl NullDeref) \<and>
            loop_body T (parent xn) x = Return (Case_I45 T (parent xn) (parent pn) x)) \<and>
         (\<forall>un. deref T (right gn) = Inr un \<and> color un = BLACK \<longrightarrow>
            rb_branch T x = rb_cases23 T x \<and>
            rb_body T x = (case rb_cases23 T x of Inl e \<Rightarrow> Fail e | Inr (T', x') \<Rightarrow> Next T' x'))"
proof -
  have U: "GetUncle T x = Inr (right gn)"
    using assms(2,3,5,7) by (simp add: GetUncle_def GetParent_def childDir_def)
  obtain g where G: "parent pn = Some g"
    using assms(5) by (auto simp: deref_Inr_iff)
  have body: "rb_body T x = Fail NullDeref" if "right gn = None"
    using assms(1-6) that by (simp add: rb_body_def rb_branch_def)
  have loop: "rb_loop T x = Some (Inl NullDeref)" if "right gn = None"
    by (subst rb_loop.simps) (simp add: body[OF that])
  have cpp: "loop_body T (parent xn) x = Return (Case_I45 T (parent xn) (parent pn) x)"
    if "right gn = None"
    using assms(3,4) G U that by (simp add: loop_body_def GetParent_def)
  have sent: "rb_branch T x = rb_cases23 T x"
    if "deref T (right gn) = Inr un" "color un = BLACK" for un
    using assms(2,3,5) that by (simp add: rb_branch_def)
  have sent2: "rb_body T x = (case rb_cases23 T x of Inl e \<Rightarrow> Fail e | Inr (T', x') \<Rightarrow> Next T' x')"
    if "deref T (right gn) = Inr un" "color un = BLACK" for un
    using assms(1-6) sent[OF that] by (simp add: rb_body_def)
  from U body loop cpp sent sent2 show ?thesis by blast
qed

theorem uncle_read_unchecked_witness:
  "Some 2 \<noteq> root ex_left_parent \<and>
   deref ex_left_parent (Some 2) = Inr (mk 10 RED (Some 1) None None) \<and>
   deref ex_left_parent (Some 1) = Inr (mk 20 RED (Some 0) (Some 2) None) \<and>
   deref ex_left_parent (Some 0) = Inr (mk 30 BLACK None (Some 1) None) \<and>
   GetUncle ex_left_parent (Some 2) = Inr None \<and>
   rb_body ex_left_parent (Some 2) = Fail NullDeref \<and>
   rb_loop ex_left_parent (Some 2) = Some (Inl NullDeref) \<and>
   loop_body ex_left_parent (Some 1) (Some 2) =
     Return (Case_I45 ex_left_parent (Some 1) (Some 0) (Some 2))"
proof -
  have h: "Some 2 \<noteq> root ex_left_parent"
    "deref ex_left_parent (Some 2) = Inr (mk 10 RED (Some 1) None None)"
    "deref ex_left_parent (parent (mk 10 RED (Some 1) None None)) = Inr (mk 20 RED (Some 0) (Some 2) None)"
    "color (mk 20 RED (Some 0) (Some 2) None) = RED"
    "deref ex_left_parent (parent (mk 20 RED (Some 0) (Some 2) None)) = Inr (mk 30 BLACK None (Some 1) None)"
    "parent (mk 10 RED (Some 1) None None) = left (mk 30 BLACK None (Some 1) None)"
    "right (mk 30 BLACK None (Some 1) None) \<noteq> parent (mk 10 RED (Some 1) None None)"
    by (simp_all add: ex_left_parent_def mk_def)
  have p: "parent (mk 10 RED (Some 1) None None) = Some 1"
    "parent (mk 20 RED (Some 0) (Some 2) None) = Some 0"
    "right (mk 30 BLACK None (Some 1) None) = None"
    by (simp_all add: mk_def)
  from uncle_read_unchecked [OF h] h(1,2) h(3,5)[unfolded p] show ?thesis
    unfolding p by blast
qed

text \<open>
  C6, as stated, fails: after the keys 1 to 7 the root holds key 2, not key 4, and after
  the first insertion \<open>validate\<close> does not hold (the root is RED).
\<close>

theorem ascending_root_counterexample:
  "map_option root_key (result_tree (insert_all empty_tree [1, 2, 3, 4, 5, 6, 7])) = Some (Some 2) \<and>
   map_option root_key (result_tree (insert_all empty_tree [1, 2, 3, 4, 5, 6, 7])) \<noteq> Some (Some 4) \<and>
   \<not> validated (insert_all empty_tree [1])"
  by code_simp

text \<open>
  C6, amended. Inserting the keys 1 to 7 in that order into an empty tree gives the tree
  below: the root holds key 2 and is BLACK, every path from the root to an absent leaf
  crosses 2 BLACK nodes (3 with the absent leaf counted), and there is no RED node with a
  RED child. \<open>validate\<close> holds after insertions 2, 3, 6 and 7, and fails after insertions
  1, 4 and 5, where the root is RED; invariants 3, 4 and 5 hold after each of the seven.
\<close>

theorem ascending_inserts:
  "result_tree (insert_all empty_tree [1, 2, 3, 4, 5, 6, 7]) =
     Some (Node (Node Leaf 0 BLACK 1 Leaf) 1 BLACK 2
            (Node (Node Leaf 2 BLACK 3 Leaf) 3 RED 4
              (Node (Node Leaf 4 RED 5 Leaf) 5 BLACK 6 (Node Leaf 6 RED 7 Leaf)))) \<and>
   map_option bheight (result_tree (insert_all empty_tree [1, 2, 3, 4, 5, 6, 7])) = Some 2 \<and>
   map (\<lambda>n. validated (insert_all empty_tree (take n [1, 2, 3, 4, 5, 6, 7]))) [1, 2, 3, 4, 5, 6, 7] =
     [False, True, True, False, False, True, True] \<and>
   map (\<lambda>n. validated_but_root (insert_all empty_tree (take n [1, 2, 3, 4, 5, 6, 7]))) [1, 2, 3, 4, 5, 6, 7] =
     [True, True, True, True, True, True, True]"
  by code_simp

text \<open>
  C2, as stated, fails for \<^verbatim>\<open>RBinsert1\<close>: the root is RED after an insert into an empty
  tree, and after the fourth of the inserts 1, 2, 3, 4, where the recolouring loop ends at
  a node without parent.
\<close>

theorem empty_insert_root_counterexample:
  "map_option root_color (result_tree (insert_key empty_tree 1)) = Some RED \<and>
   map_option root_color (result_tree (insert_all empty_tree [1, 2, 3, 4])) = Some RED"
  by code_simp

text \<open>
  C2, amended. \<^verbatim>\<open>rb_insert\<close> (\<^verbatim>\<open>thing.c\<close>) colours the root BLACK as its last statement:
  whenever it returns a store, the root is BLACK. \<^verbatim>\<open>RBinsert1\<close> (\<^verbatim>\<open>thing.cpp\<close>) leaves the
  root RED when it inserts into an empty tree, and when the recolouring of \<^verbatim>\<open>Case_I1\<close>
  reaches a grandparent that has no parent (\<^verbatim>\<open>Case_I2\<close>).
\<close>

theorem root_colour_after_insert:
  "(rb_insert Tc x = Some (Inr Tc') \<longrightarrow>
      (\<exists>a. root Tc' = Some a \<and> a < length (nodes Tc') \<and> color (nodes Tc' ! a) = BLACK)) \<and>
   (n < length (nodes Te) \<longrightarrow>
      (\<exists>T1. RBinsert1 Te None (Some n) d = Some (Inr T1) \<and> root T1 = Some n \<and>
         color (nodes T1 ! n) = RED)) \<and>
   (p < length (nodes T) \<and> color (nodes T ! p) = RED \<and> parent (nodes T ! p) = Some g \<and>
    g < length (nodes T) \<and> GetUncle T N = Inr (Some u) \<and> u < length (nodes T) \<and>
    color (nodes T ! u) = RED \<and> g \<noteq> u \<and> parent (nodes T ! g) = None \<and> root T = Some g \<longrightarrow>
      (\<exists>T'. RBloop T (Some p) N = Some (Inr T') \<and> root T' = Some g \<and>
         color (nodes T' ! g) = RED))"
proof (intro conjI impI)
  assume "rb_insert Tc x = Some (Inr Tc')"
  then show "\<exists>a. root Tc' = Some a \<and> a < length (nodes Tc') \<and> color (nodes Tc' ! a) = BLACK"
    by (rule rb_insert_root_black)
next
  assume "n < length (nodes Te)"
  then show "\<exists>T1. RBinsert1 Te None (Some n) d = Some (Inr T1) \<and> root T1 = Some n \<and>
         color (nodes T1 ! n) = RED"
    by (rule RBinsert1_empty_root_red)
next
  assume a: "p < length (nodes T) \<and> color (nodes T ! p) = RED \<and> parent (nodes T ! p) = Some g \<and>
    g < length (nodes T) \<and> GetUncle T N = Inr (Some u) \<and> u < length (nodes T) \<and>
    color (nodes T ! u) = RED \<and> g \<noteq> u \<and> parent (nodes T ! g) = None \<and> root T = Some g"
  then have "\<exists>T'. RBloop T (Some p) N = Some (Inr T') \<and> root T' = root T \<and>
           color (nodes T' ! g) = RED"
    using Case_I2_root_red[of p T g N u] by blast
  with a show "\<exists>T'. RBloop T (Some p) N = Some (Inr T') \<and> root T' = Some g \<and>
         color (nodes T' ! g) = RED"
    by auto
qed

theorem root_colour_after_insert_witness:
  "rb_insert ex_fresh (Some 0) = Some (Inr \<lparr>root = Some 0, nodes = [mk 1 BLACK None None None]\<rparr>) \<and>
   (\<exists>a. root \<lparr>root = Some 0, nodes = [mk 1 BLACK None None None]\<rparr> = Some a \<and>
      color (nodes \<lparr>root = Some 0, nodes = [mk 1 BLACK None None None]\<rparr> ! a) = BLACK) \<and>
   (0::nat) < length (nodes ex_fresh) \<and>
   (\<exists>T1. RBinsert1 ex_fresh None (Some 0) LEFT = Some (Inr T1) \<and> root T1 = Some 0 \<and>
      color (nodes T1 ! 0) = RED) \<and>
   color (nodes ex_root_uncle_red ! 2) = RED \<and> parent (nodes ex_root_uncle_red ! 2) = Some 1 \<and>
   GetUncle ex_root_uncle_red (Some 3) = Inr (Some 0) \<and>
   color (nodes ex_root_uncle_red ! 0) = RED \<and> parent (nodes ex_root_uncle_red ! 1) = None \<and>
   root ex_root_uncle_red = Some 1 \<and>
   (\<exists>T'. RBloop ex_root_uncle_red (Some 2) (Some 3) = Some (Inr T') \<and> root T' = Some 1 \<and>
      color (nodes T' ! 1) = RED)"
proof -
  have h1: "rb_insert ex_fresh (Some 0) =
      Some (Inr \<lparr>root = Some 0, nodes = [mk 1 BLACK None None None]\<rparr>)"
    by (rule rb_insert_ex_fresh)
  have h2: "(0::nat) < length (nodes ex_fresh)"
    by (simp add: ex_fresh_def)
  have h3: "(2::nat) < length (nodes ex_root_uncle_red) \<and> color (nodes ex_root_uncle_red ! 2) = RED \<and>
    parent (nodes ex_root_uncle_red ! 2) = Some 1 \<and> (1::nat) < length (nodes ex_root_uncle_red) \<and>
    GetUncle ex_root_uncle_red (Some 3) = Inr (Some 0) \<and> (0::nat) < length (nodes ex_root_uncle_red) \<and>
    color (nodes ex_root_uncle_red ! 0) = RED \<and> (1::nat) \<noteq> 0 \<and>
    parent (nodes ex_root_uncle_red ! 1) = None \<and> root ex_root_uncle_red = Some 1"
    using GetUncle_ex_root_uncle_red by (simp add: ex_root_uncle_red_def mk_def)
  note t = root_colour_after_insert [of ex_fresh "Some 0"
      "\<lparr>root = Some 0, nodes = [mk 1 BLACK None None None]\<rparr>" 0 ex_fresh LEFT
      2 ex_root_uncle_red 1 "Some 3" 0]
  from t h1 h2 h3 show ?thesis by blast
qed

text \<open>
  C1, amended. For every finite sequence of keys, every insert of the sequence completes,
  and after each of them (after every prefix \<open>take n ks\<close>) the store holds a tree with
  consistent parent links in which no RED node has a RED child, every path to an absent
  leaf crosses the same number of BLACK nodes and the keys are in order. The tree holds
  exactly the keys inserted so far, each as often as it was inserted, one node for each
  insert. Invariant 2 is left out: \<^verbatim>\<open>RBinsert1\<close> may leave the root RED.
\<close>

theorem inserts_keep_invariants:
  "\<exists>T t. insert_all empty_tree (take n ks) = Some (Inr T) \<and> the_tree T = Some t \<and>
     no_red_red t \<and> balanced t \<and> ordered t \<and> mset (keys t) = mset (take n ks) \<and>
     length (addrs t) = length (take n ks) \<and> validate_but_root T"
proof -
  from insert_all_correct[OF inv_empty, of "take n ks"] obtain T t where
    1: "insert_all empty_tree (take n ks) = Some (Inr T)" "inv T t"
    "mset (keys t) = mset (take n ks)" by auto
  from 1(2) inv_validate[OF 1(2)] have "the_tree T = Some t" "validate_but_root T"
    "no_red_red t" "balanced t" "ordered t"
    by (auto simp: inv_def ordered_sorted)
  moreover from 1(3) have "length (addrs t) = length (take n ks)"
    by (metis length_keys size_mset)
  ultimately show ?thesis using 1 by blast
qed

text \<open>
  C1, as stated, fails: after the first insert into the empty tree the root is RED, so
  \<open>validate\<close> does not hold.
\<close>

theorem first_insert_counterexample:
  "validated (insert_all empty_tree [1]) = False \<and>
   map_option root_color (result_tree (insert_all empty_tree [1])) = Some RED"
  by code_simp



text \<open>
  C3. The loop of \<^verbatim>\<open>rb_insert\<close> does not end when the red parent is a right child of the
  grandparent. \<^verbatim>\<open>rb_insert\<close> of the nodes with keys 1 and 2 into the empty tree returns
  the black root 1 with the red right child 2; \<^verbatim>\<open>rb_insert\<close> of the node with key 3 into
  that tree never returns. After the linking, the state is a well-formed one (the new node
  is RED below its red parent, the invariants hold elsewhere); a pass of the loop leaves
  the store and \<open>x\<close> as they are, so the loop runs forever. On the same state the loop of
  \<^verbatim>\<open>RBinsert1\<close> returns after one pass.
\<close>

theorem right_parent_never_returns:
  "rb_insert ex_three_fresh (Some 0) = Some (Inr (ex_three_fresh\<lparr>root := Some 0\<rparr>)) \<and>
   rb_insert (ex_three_fresh\<lparr>root := Some 0\<rparr>) (Some 1) = Some (Inr ex_two_inserted) \<and>
   rb_insert ex_two_inserted (Some 2) = None \<and>
   loop_inv ex_right_parent ex_right_parent_tree 2 1 \<and>
   rb_body ex_right_parent (Some 2) = Next ex_right_parent (Some 2) \<and>
   rb_loop ex_right_parent (Some 2) = None \<and>
   RBloop ex_right_parent (Some 1) (Some 2) =
     Some (Inr \<lparr>root = Some 1, nodes =
       [mk 1 RED (Some 1) None None, mk 2 BLACK None (Some 0) (Some 2), mk 3 RED (Some 1) None None]\<rparr>)"
  using rb_insert_two rb_insert_third loop_inv_ex_right_parent rb_body_ex_right_parent
    rb_loop_spin[OF rb_body_ex_right_parent] RBloop_ex_right_parent
  by simp
end
